theory Spec2Isabelle
  imports Complex_Main "HOL-Library.Log_Nat"
begin

section \<open>Strings of the script\<close>

text \<open>
  A JavaScript string is a sequence of code units.  The model uses \<open>string\<close>; a \<open>char\<close>
  stands for one code unit in the range 0..255, which covers every character the script
  itself mentions.  The String methods the script calls are written out below.
\<close>

definition isDigit :: "char \<Rightarrow> bool" where
  \<comment> \<open>the regex classes \<open>\d\<close> and \<open>[0-9]\<close>\<close>
  "isDigit c = (c \<in> set ''0123456789'')"

definition isOp :: "char \<Rightarrow> bool" where
  \<comment> \<open>the regex class \<open>[+\-*/]\<close>\<close>
  "isOp c = (c \<in> set ''+-*/'')"

definition isLineTerminator :: "char \<Rightarrow> bool" where
  \<comment> \<open>LF and CR; the other two line terminators are above 255\<close>
  "isLineTerminator c = (c = CHR 0x0A \<or> c = CHR 0x0D)"

definition isWhiteSpace :: "char \<Rightarrow> bool" where
  \<comment> \<open>TAB, VT, FF, SP and NBSP; the other white space is above 255\<close>
  "isWhiteSpace c = (c = CHR 0x09 \<or> c = CHR 0x0B \<or> c = CHR 0x0C \<or> c = CHR 0x20 \<or> c = CHR 0xA0)"

definition isSpace :: "char \<Rightarrow> bool" where
  \<comment> \<open>what \<open>trim\<close> removes and what the regex class \<open>\s\<close> matches\<close>
  "isSpace c = (isWhiteSpace c \<or> isLineTerminator c)"

definition trim :: "string \<Rightarrow> string" where
  "trim s = rev (dropWhile isSpace (rev (dropWhile isSpace s)))"

fun startsWith :: "string \<Rightarrow> string \<Rightarrow> bool" where
  "startsWith s [] = True"
| "startsWith [] (v # vs) = False"
| "startsWith (c # cs) (v # vs) = (c = v \<and> startsWith cs vs)"

fun includesStr :: "string \<Rightarrow> string \<Rightarrow> bool" where
  \<comment> \<open>\<open>s.includes(v)\<close>: \<open>v\<close> occurs in \<open>s\<close> as a substring; the empty string always does\<close>
  "includesStr [] v = (v = [])"
| "includesStr (c # cs) v = (startsWith (c # cs) v \<or> includesStr cs v)"

definition sliceLast :: "string \<Rightarrow> string" where
  \<comment> \<open>\<open>s.slice(-1)\<close>: the last character as a string, empty for the empty string\<close>
  "sliceLast s = (if s = [] then [] else [last s])"

definition lastToken :: "string \<Rightarrow> string" where
  \<comment> \<open>the last element of \<open>s.split(/[\+\-\*\/%]/)\<close>: the text after the last separator\<close>
  "lastToken s = rev (takeWhile (\<lambda>c. \<not> (isOp c \<or> c = CHR ''%'')) (rev s))"

section \<open>Display and history\<close>

record entry =
  expr :: string
  result :: string
  time :: string

record state =
  display :: string
  history :: "entry list"

text \<open>
  \<open>display\<close> is \<open>display.value\<close>, \<open>history\<close> the module-level array, an array of
  entries as the script initialises it and as its own writes keep it.  The copy of the
  history in local storage and the rendered rows are not part of the state: no function
  below reads them back.  Writing them can fail, though: \<open>saveHistory\<close> calls
  \<open>localStorage.setItem\<close>, which throws when the storage refuses the write, and
  \<open>renderHistory\<close> works on the document.  \<open>addToHistory\<close> calls both after it has
  updated the array, and its caller \<open>calculateResult\<close> does so inside its \<open>try\<close>;
  whether the two calls return is an argument of \<open>calculateResult\<close>.  The instant
  \<open>new Date().toISOString()\<close> returns is an argument too.
\<close>

definition isSentinel :: "string \<Rightarrow> bool" where
  "isSentinel d = (d = ''Error'' \<or> d = ''Infinity'' \<or> d = ''NaN'')"

definition appendValue :: "string \<Rightarrow> state \<Rightarrow> state" where
  "appendValue v st =
    (let st1 = (if isSentinel (display st) then st\<lparr>display := []\<rparr> else st);
         lastChar = sliceLast (display st1)
     in if includesStr ''+-*/'' v \<and> display st1 = [] \<and> v \<noteq> ''-'' then st1
        else if includesStr ''+-*/'' v \<and> includesStr ''+-*/'' lastChar
          then st1\<lparr>display := butlast (display st1) @ v\<rparr>
        else if v = ''.'' \<and> CHR ''.'' \<in> set (lastToken (display st1)) then st1
        else if v = ''.'' \<and> lastToken (display st1) = []
          then st1\<lparr>display := display st1 @ ''0'' @ v\<rparr>
        else st1\<lparr>display := display st1 @ v\<rparr>)"

definition clearDisplay :: "state \<Rightarrow> state" where
  "clearDisplay st = st\<lparr>display := []\<rparr>"

definition deleteLast :: "state \<Rightarrow> state" where
  "deleteLast st =
    (if display st = ''Error'' then st\<lparr>display := []\<rparr>
     else st\<lparr>display := butlast (display st)\<rparr>)"

definition addToHistory :: "string \<Rightarrow> string \<Rightarrow> string \<Rightarrow> state \<Rightarrow> state" where
  \<comment> \<open>\<open>now\<close>, then the expression and the result already converted by \<open>String\<close>; the
      array as \<open>unshift\<close> and \<open>pop\<close> leave it, before \<open>saveHistory\<close> and \<open>renderHistory\<close>\<close>
  "addToHistory now expression res st =
    (let h = \<lparr>expr = expression, result = res, time = now\<rparr> # history st
     in st\<lparr>history := (if length h > 200 then butlast h else h)\<rparr>)"

definition samples :: "(string \<times> string) list" where
  "samples = [(''5+3'', ''8''), (''12/4'', ''3''), (''7*6'', ''42''), (''50%'', ''0.5''),
              (''200-10%'', ''180'')]"

fun unshiftSamples :: "(nat \<Rightarrow> string) \<Rightarrow> nat \<Rightarrow> (string \<times> string) list \<Rightarrow> entry list \<Rightarrow> entry list" where
  \<comment> \<open>the \<open>forEach\<close> of \<open>addSampleData\<close>; \<open>now i\<close> is the clock at the \<open>i\<close>-th sample\<close>
  "unshiftSamples now i [] h = h"
| "unshiftSamples now i ((e, r) # ss) h =
     unshiftSamples now (Suc i) ss (\<lparr>expr = e, result = r, time = now i\<rparr> # h)"

definition addSampleData :: "(nat \<Rightarrow> string) \<Rightarrow> state \<Rightarrow> state" where
  "addSampleData now st = st\<lparr>history := unshiftSamples now 0 samples (history st)\<rparr>"

definition clearHistory :: "state \<Rightarrow> state" where
  "clearHistory st = st\<lparr>history := []\<rparr>"

section \<open>Percent rewriting and the sanitizer\<close>

text \<open>
  \<open>expr.replace(re, ...)\<close> with a global regex scans the text from the left: where the
  regex matches, the replacement is written and the scan goes on after the match; where it
  does not, the character is copied.  A matcher gives, for the text that starts at the
  current position, the replacement and the length of the match (never 0 for the two
  regexes of the script); the counter of \<open>replaceAll\<close> is the number of matched
  characters still to skip.
\<close>

type_synonym matcher = "string \<Rightarrow> (string \<times> nat) option"

fun replaceAll :: "matcher \<Rightarrow> nat \<Rightarrow> string \<Rightarrow> string" where
  "replaceAll m k [] = []"
| "replaceAll m (Suc k) (c # cs) = replaceAll m k cs"
| "replaceAll m 0 (c # cs) =
     (case m (c # cs) of
        Some (r, n) \<Rightarrow> r @ replaceAll m (n - 1) cs
      | None \<Rightarrow> c # replaceAll m 0 cs)"

definition matchPercent :: matcher where
  \<comment> \<open>\<open>/(\d+(\.\d+)?)%/\<close> replaced by \<open>($1/100)\<close>.  Both \<open>\d+\<close> are greedy, and giving
      digits back never helps, since a digit would then stand where \<open>.\<close> or \<open>%\<close> must.\<close>
  "matchPercent s =
    (let d = takeWhile isDigit s; r = dropWhile isDigit s
     in if d = [] then None
        else if startsWith r ''%'' then Some (''('' @ d @ ''/100)'', length d + 1)
        else if startsWith r ''.'' then
          (let d2 = takeWhile isDigit (tl r); r2 = dropWhile isDigit (tl r)
           in if d2 \<noteq> [] \<and> startsWith r2 ''%''
              then Some (''('' @ d @ ''.'' @ d2 @ ''/100)'', length d + length d2 + 2)
              else None)
        else None)"

definition normalizePercent :: "string \<Rightarrow> string" where
  "normalizePercent e = replaceAll matchPercent 0 e"

definition matchOps :: matcher where
  \<comment> \<open>\<open>/([+\-*/]){2,}/\<close> replaced by \<open>m[m.length - 1]\<close>\<close>
  "matchOps s =
    (let run = takeWhile isOp s
     in if length run \<ge> 2 then Some ([last run], length run) else None)"

definition stripLeading :: "string \<Rightarrow> string" where
  \<comment> \<open>\<open>if (/^[+*/]/.test(expr)) expr = expr.slice(1)\<close>\<close>
  "stripLeading e = (if e \<noteq> [] \<and> hd e \<in> set ''+*/'' then tl e else e)"

definition collapseOps :: "string \<Rightarrow> string" where
  "collapseOps e = replaceAll matchOps 0 e"

definition sanitizeExpression :: "string \<Rightarrow> string" where
  "sanitizeExpression e = collapseOps (stripLeading (trim e))"

text \<open>Names for the statements about operator runs.\<close>

definition endsClean :: "string \<Rightarrow> bool" where
  \<comment> \<open>the text does not end with an operator character\<close>
  "endsClean s = (s = [] \<or> \<not> isOp (last s))"

definition startsClean :: "string \<Rightarrow> bool" where
  \<comment> \<open>the text does not start with an operator character\<close>
  "startsClean s = (s = [] \<or> \<not> isOp (hd s))"

definition sanitizedPrefix :: "string \<Rightarrow> string" where
  \<comment> \<open>what the sanitizer makes of the text before a run: white space trimmed at the
      start, a leading operator stripped, runs collapsed\<close>
  "sanitizedPrefix p = collapseOps (stripLeading (dropWhile isSpace p))"

definition sanitizedSuffix :: "string \<Rightarrow> string" where
  \<comment> \<open>what the sanitizer makes of the text after a run: white space trimmed at the
      end, runs collapsed\<close>
  "sanitizedSuffix p = collapseOps (rev (dropWhile isSpace (rev p)))"

definition stopper :: "string \<Rightarrow> bool" where
  \<comment> \<open>the text is empty or starts with an operator character, where no match of the
      percent regex can go on\<close>
  "stopper rest = (rest = [] \<or> isOp (hd rest))"

section \<open>Numbers of the host\<close>

text \<open>
  \<open>safeEval\<close> hands the sanitized text to the host, and \<open>calculateResult\<close> converts the
  result with \<open>toFixed\<close>, \<open>parseFloat\<close> and \<open>String\<close>.  These are the host's, not the
  script's; they are modelled after the language specification.  A Number is a binary64
  value: a finite one is the rational it denotes, and every operation rounds its exact
  result to the nearest representable value, ties to the even significand.
\<close>

datatype jsnum = Fin rat | NegZero | PosInf | NegInf | NaN

definition ilog2 :: "rat \<Rightarrow> int" where
  \<comment> \<open>for \<open>a > 0\<close>, the \<open>k\<close> with \<open>2 ^ k \<le> a < 2 ^ (k + 1)\<close>\<close>
  "ilog2 a = (if 1 \<le> a then bitlen \<lfloor>a\<rfloor> - 1 else - bitlen (\<lceil>1 / a\<rceil> - 1))"

definition roundHalfEven :: "rat \<Rightarrow> int" where
  "roundHalfEven x =
    (let f = \<lfloor>x\<rfloor>; d = x - of_int f
     in if d < 1 / 2 then f else if 1 / 2 < d then f + 1 else if even f then f else f + 1)"

definition signedZero :: "bool \<Rightarrow> jsnum" where
  "signedZero neg = (if neg then NegZero else Fin 0)"

definition signedInf :: "bool \<Rightarrow> jsnum" where
  "signedInf neg = (if neg then NegInf else PosInf)"

definition overflowThreshold :: rat where
  \<comment> \<open>a rounded magnitude that reaches it is no longer finite\<close>
  "overflowThreshold = 2 ^ 1024"

definition fl :: "rat \<Rightarrow> jsnum" where
  \<comment> \<open>the Number value for a real: 53 significant bits, least exponent \<open>-1074\<close>, overflow
      to an infinity and underflow to a zero of the same sign\<close>
  "fl q =
    (if q = 0 then Fin 0
     else let a = \<bar>q\<bar>;
              e = max (ilog2 a - 52) (- 1074);
              m = roundHalfEven (a / 2 powi e);
              v = of_int m * 2 powi e
          in if overflowThreshold \<le> v then signedInf (q < 0)
             else if m = 0 then signedZero (q < 0)
             else Fin (if q < 0 then - v else v))"

fun isNeg :: "jsnum \<Rightarrow> bool" where
  "isNeg (Fin q) = (q < 0)"
| "isNeg NegZero = True"
| "isNeg NegInf = True"
| "isNeg x = False"

fun isFinite :: "jsnum \<Rightarrow> bool" where
  "isFinite (Fin q) = True"
| "isFinite NegZero = True"
| "isFinite x = False"

fun realOf :: "jsnum \<Rightarrow> rat" where
  \<comment> \<open>the real a finite Number denotes\<close>
  "realOf (Fin q) = q"
| "realOf x = 0"

fun numNeg :: "jsnum \<Rightarrow> jsnum" where
  "numNeg (Fin q) = (if q = 0 then NegZero else Fin (- q))"
| "numNeg NegZero = Fin 0"
| "numNeg PosInf = NegInf"
| "numNeg NegInf = PosInf"
| "numNeg NaN = NaN"

definition numAdd :: "jsnum \<Rightarrow> jsnum \<Rightarrow> jsnum" where
  "numAdd x y =
    (if x = NaN \<or> y = NaN then NaN
     else if \<not> isFinite x then (if \<not> isFinite y \<and> x \<noteq> y then NaN else x)
     else if \<not> isFinite y then y
     else if x = NegZero \<and> y = NegZero then NegZero
     else fl (realOf x + realOf y))"

definition numSub :: "jsnum \<Rightarrow> jsnum \<Rightarrow> jsnum" where
  "numSub x y = numAdd x (numNeg y)"

definition numMul :: "jsnum \<Rightarrow> jsnum \<Rightarrow> jsnum" where
  "numMul x y =
    (let neg = (isNeg x \<noteq> isNeg y)
     in if x = NaN \<or> y = NaN then NaN
        else if \<not> isFinite x \<or> \<not> isFinite y then
          (if (isFinite x \<and> realOf x = 0) \<or> (isFinite y \<and> realOf y = 0) then NaN
           else signedInf neg)
        else if realOf x * realOf y = 0 then signedZero neg
        else fl (realOf x * realOf y))"

definition numDiv :: "jsnum \<Rightarrow> jsnum \<Rightarrow> jsnum" where
  "numDiv x y =
    (let neg = (isNeg x \<noteq> isNeg y)
     in if x = NaN \<or> y = NaN then NaN
        else if \<not> isFinite x then (if \<not> isFinite y then NaN else signedInf neg)
        else if \<not> isFinite y then signedZero neg
        else if realOf y = 0 then (if realOf x = 0 then NaN else signedInf neg)
        else if realOf x = 0 then signedZero neg
        else fl (realOf x / realOf y))"

definition truncate :: "rat \<Rightarrow> int" where
  "truncate x = (if x < 0 then \<lceil>x\<rceil> else \<lfloor>x\<rfloor>)"

definition numRem :: "jsnum \<Rightarrow> jsnum \<Rightarrow> jsnum" where
  \<comment> \<open>the operator \<open>%\<close>: the remainder of the truncating division, with the sign of the
      dividend\<close>
  "numRem x y =
    (if x = NaN \<or> y = NaN \<or> \<not> isFinite x then NaN
     else if \<not> isFinite y then x
     else if realOf y = 0 then NaN
     else if realOf x = 0 then x
     else let r = realOf x - realOf y * of_int (truncate (realOf x / realOf y))
          in if r = 0 then signedZero (isNeg x) else fl r)"

fun isInteger :: "jsnum \<Rightarrow> bool" where
  \<comment> \<open>\<open>Number.isInteger\<close>\<close>
  "isInteger (Fin q) = (of_int \<lfloor>q\<rfloor> = q)"
| "isInteger NegZero = True"
| "isInteger x = False"

subsection \<open>Numbers as text\<close>

text \<open>
  Where the language specification leaves a choice (the digits of a literal or of the
  argument of \<open>parseFloat\<close> beyond the twentieth, the last digit that \<open>String\<close>
  prints), the model takes the correctly rounded value and the nearest digits.
\<close>

definition digitChar :: "nat \<Rightarrow> char" where
  "digitChar d = ''0123456789'' ! d"

definition digitValue :: "char \<Rightarrow> nat" where
  "digitValue c = of_char c - 48"

fun digitsOf :: "nat \<Rightarrow> string" where
  \<comment> \<open>the decimal digits of a natural number, most significant first\<close>
  "digitsOf n = (if n < 10 then [digitChar n] else digitsOf (n div 10) @ [digitChar (n mod 10)])"

declare digitsOf.simps [simp del]

definition valueOfDigits :: "string \<Rightarrow> nat" where
  "valueOfDigits ds = foldl (\<lambda>acc c. 10 * acc + digitValue c) 0 ds"

definition decimalValue :: "string \<Rightarrow> string \<Rightarrow> rat" where
  \<comment> \<open>the mathematical value of the digits \<open>ip\<close>, a point, and the digits \<open>fp\<close>\<close>
  "decimalValue ip fp = of_nat (valueOfDigits (ip @ fp)) / 10 ^ length fp"

definition decExp :: "rat \<Rightarrow> int" where
  \<comment> \<open>for \<open>q > 0\<close>, the \<open>n\<close> with \<open>10 ^ (n - 1) \<le> q < 10 ^ n\<close>\<close>
  "decExp q =
    (if 1 \<le> q then int (length (digitsOf (nat \<lfloor>q\<rfloor>)))
     else 1 - int (length (digitsOf (nat (\<lceil>1 / q\<rceil> - 1)))))"

definition candidates :: "rat \<Rightarrow> nat \<Rightarrow> int \<Rightarrow> (int \<times> int) list" where
  \<comment> \<open>the \<open>(s, n)\<close> with \<open>k\<close> digits in \<open>s\<close> and \<open>s * 10 ^ (n - k)\<close> next to \<open>q\<close> that
      denote the Number \<open>q\<close>\<close>
  "candidates q k n =
    (let u = q / 10 powi (n - int k)
     in map (\<lambda>s. (s, n))
          (filter (\<lambda>s. 10 ^ (k - 1) \<le> s \<and> s < 10 ^ k
                        \<and> fl (of_int s * 10 powi (n - int k)) = Fin q)
             [\<lfloor>u\<rfloor>, \<lfloor>u\<rfloor> + 1]))"

definition closer :: "rat \<Rightarrow> nat \<Rightarrow> int \<times> int \<Rightarrow> int \<times> int \<Rightarrow> int \<times> int" where
  \<comment> \<open>of two candidates the one nearer to \<open>q\<close>, the even one when they are as near\<close>
  "closer q k c d =
    (let dc = \<bar>of_int (fst c) * 10 powi (snd c - int k) - q\<bar>;
         dd = \<bar>of_int (fst d) * 10 powi (snd d - int k) - q\<bar>
     in if dd < dc \<or> (dd = dc \<and> even (fst d) \<and> odd (fst c)) then d else c)"

fun shortest :: "rat \<Rightarrow> int \<Rightarrow> nat \<Rightarrow> nat \<Rightarrow> nat \<times> int \<times> int" where
  \<comment> \<open>the least number of digits \<open>k\<close>, from \<open>k\<close> on, that has a candidate, with the
      nearest candidate; a Number needs at most 17 digits, so the last line is never
      reached for one\<close>
  "shortest q n0 0 k = (k, roundHalfEven (q / 10 powi (n0 - int k)), n0)"
| "shortest q n0 (Suc r) k =
     (case candidates q k n0 @ candidates q k (n0 + 1) of
        [] \<Rightarrow> shortest q n0 r (Suc k)
      | c # cs \<Rightarrow> (k, foldl (closer q k) c cs))"

definition formatDigits :: "string \<Rightarrow> int \<Rightarrow> string" where
  \<comment> \<open>the layout of \<open>Number::toString\<close> for the digits \<open>ds\<close> and the exponent \<open>n\<close>\<close>
  "formatDigits ds n =
    (let k = int (length ds)
     in if k \<le> n \<and> n \<le> 21 then ds @ replicate (nat (n - k)) (CHR ''0'')
        else if 0 < n \<and> n \<le> 21 then take (nat n) ds @ ''.'' @ drop (nat n) ds
        else if - 6 < n \<and> n \<le> 0 then ''0.'' @ replicate (nat (- n)) (CHR ''0'') @ ds
        else let ex = (if n - 1 < 0 then ''-'' else ''+'') @ digitsOf (nat \<bar>n - 1\<bar>)
             in if k = 1 then ds @ ''e'' @ ex
                else take 1 ds @ ''.'' @ drop 1 ds @ ''e'' @ ex)"

definition posToString :: "rat \<Rightarrow> string" where
  "posToString q =
    (case shortest q (decExp q) 17 1 of (k, s, n) \<Rightarrow> formatDigits (digitsOf (nat s)) n)"

fun numToString :: "jsnum \<Rightarrow> string" where
  \<comment> \<open>\<open>Number::toString\<close>: the shortest decimal text that denotes the Number\<close>
  "numToString NaN = ''NaN''"
| "numToString PosInf = ''Infinity''"
| "numToString NegInf = ''-Infinity''"
| "numToString NegZero = ''0''"
| "numToString (Fin q) =
     (if q = 0 then ''0'' else if q < 0 then ''-'' @ posToString (- q) else posToString q)"

definition toFixed10 :: "jsnum \<Rightarrow> string" where
  \<comment> \<open>\<open>x.toFixed(10)\<close>: the integer \<open>n\<close> nearest to \<open>x * 10 ^ 10\<close>, the larger of two,
      written with the point before its last ten digits\<close>
  "toFixed10 x =
    (if \<not> isFinite x then numToString x
     else let a = \<bar>realOf x\<bar>; sign = (if realOf x < 0 then ''-'' else [])
          in if 10 ^ 21 \<le> a then sign @ numToString (Fin a)
             else let n = nat \<lfloor>a * 10 ^ 10 + 1 / 2\<rfloor>;
                      m = digitsOf n;
                      m' = replicate (11 - length m) (CHR ''0'') @ m
                  in sign @ take (length m' - 10) m' @ ''.'' @ drop (length m' - 10) m')"

definition exponentPart :: "string \<Rightarrow> int" where
  \<comment> \<open>the value of a leading \<open>e\<close> or \<open>E\<close>, optional sign and digits; 0 when there is none\<close>
  "exponentPart r =
    (if startsWith r ''e'' \<or> startsWith r ''E'' then
       (let r' = tl r;
            ds = (if startsWith r' ''-'' \<or> startsWith r' ''+'' then tl r' else r');
            d = takeWhile isDigit ds
        in if d = [] then 0
           else if startsWith r' ''-'' then - int (valueOfDigits d) else int (valueOfDigits d))
     else 0)"

definition parseFloat :: "string \<Rightarrow> jsnum" where
  "parseFloat s =
    (let t = dropWhile isSpace s;
         neg = startsWith t ''-'';
         u = (if startsWith t ''-'' \<or> startsWith t ''+'' then tl t else t)
     in if startsWith u ''Infinity'' then signedInf neg
        else let ip = takeWhile isDigit u;
                 r1 = dropWhile isDigit u;
                 fp = (if startsWith r1 ''.'' then takeWhile isDigit (tl r1) else []);
                 r2 = (if startsWith r1 ''.'' then dropWhile isDigit (tl r1) else r1)
             in if ip = [] \<and> fp = [] then NaN
                else let mv = decimalValue ip fp * 10 powi exponentPart r2
                     in if mv = 0 then signedZero neg else fl (if neg then - mv else mv))"

section \<open>The host's evaluation of the text\<close>

text \<open>
  \<open>Function('"use strict"; return (' + expr + ');')()\<close> parses the body as strict-mode
  code and runs it.  Over the characters that \<open>safeEval\<close> lets through, the language has
  decimal literals, regular expression literals, the operators \<open>+ - * / %\<close> (binary, and
  \<open>+ -\<close> unary), parentheses, calls \<open>f(x)\<close>, \<open>f()\<close> and \<open>f(...x)\<close>, and the automatic
  semicolon before a literal on a new line.  The model has all of them.  It leaves out
  what two adjacent operator characters would start (\<open>++\<close>, \<open>--\<close>, \<open>**\<close> and comments):
  the sanitizer never leaves two adjacent, see \<open>safeEval_modelled\<close>.
\<close>

datatype jserror = InvalidCharacters | SyntaxError | TypeError | NotModelled

datatype jsvalue = Num jsnum | RegExpV string | StrV string

datatype token = TNum rat | TRegExp string | TOp char | TOpen | TClose | TSpread

text \<open>
  \<open>TNum\<close> carries the mathematical value of a decimal literal; the literal denotes
  the Number nearest to it.
\<close>

definition startsDigit :: "string \<Rightarrow> bool" where
  "startsDigit s = (s \<noteq> [] \<and> isDigit (hd s))"

definition scanNumber :: "string \<Rightarrow> string \<times> string \<times> string" where
  \<comment> \<open>a decimal literal at the start of the text: the digits before the point, the
      digits after it, and the text after the literal\<close>
  "scanNumber s =
    (let ip = takeWhile isDigit s; r = dropWhile isDigit s
     in if startsWith r ''.'' then (ip, takeWhile isDigit (tl r), dropWhile isDigit (tl r))
        else (ip, [], r))"

definition scanRegExp :: "string \<Rightarrow> string \<times> string" where
  \<comment> \<open>after the opening \<open>/\<close>: the body, and the text from the closing \<open>/\<close> on\<close>
  "scanRegExp s =
    (takeWhile (\<lambda>x. x \<noteq> CHR ''/'' \<and> \<not> isLineTerminator x) s,
     dropWhile (\<lambda>x. x \<noteq> CHR ''/'' \<and> \<not> isLineTerminator x) s)"

fun patternOk :: "nat \<Rightarrow> bool \<Rightarrow> string \<Rightarrow> bool" where
  \<comment> \<open>the body is a pattern: groups are balanced, and \<open>+\<close> and \<open>*\<close> follow an atom.
      The counter is the number of open groups, the flag says that an atom precedes.\<close>
  "patternOk d q [] = (d = 0)"
| "patternOk d q (c # cs) =
     (if c = CHR ''('' then patternOk (Suc d) False cs
      else if c = CHR '')'' then 0 < d \<and> patternOk (d - 1) True cs
      else if c = CHR ''+'' \<or> c = CHR ''*'' then q \<and> patternOk d False cs
      else patternOk d True cs)"

definition consTok :: "'a \<Rightarrow> 'a list option \<Rightarrow> 'a list option" where
  "consTok t r = map_option ((#) t) r"

lemma length_dropWhile_tl_dropWhile:
  "length (dropWhile P (tl (dropWhile Q s))) \<le> length s"
proof -
  have "length (dropWhile P (tl (dropWhile Q s))) \<le> length (tl (dropWhile Q s))"
    by (rule length_dropWhile_le)
  also have "\<dots> \<le> length (dropWhile Q s)" by simp
  also have "\<dots> \<le> length s" by (rule length_dropWhile_le)
  finally show ?thesis .
qed

lemma scanNumber_shorter:
  assumes "isDigit c \<or> c = CHR ''.''" "scanNumber (c # cs) = (ip, fp, rest)"
  shows "length rest \<le> length cs"
proof (cases "isDigit c")
  case True
  with assms(2) show ?thesis
    by (auto simp: scanNumber_def Let_def length_dropWhile_le length_dropWhile_tl_dropWhile
        split: if_splits)
next
  case False
  with assms(1) have c: "c = CHR ''.''" by simp
  with False assms(2) show ?thesis
    by (auto simp: scanNumber_def Let_def length_dropWhile_le)
qed

lemma scanRegExp_shorter: "scanRegExp s = (body, r) \<Longrightarrow> length (tl r) \<le> length s"
proof -
  assume "scanRegExp s = (body, r)"
  then have "r = dropWhile (\<lambda>x. x \<noteq> CHR ''/'' \<and> \<not> isLineTerminator x) s"
    by (simp add: scanRegExp_def)
  then have "length r \<le> length s" by (simp add: length_dropWhile_le)
  then show ?thesis by simp
qed

lemma scanNumber_decreases:
  "(ip, fp, rest) = scanNumber (c # cs) \<Longrightarrow> isDigit c \<or> c = CHR ''.''
    \<Longrightarrow> length rest < Suc (length cs)"
  using scanNumber_shorter [of c cs ip fp rest] by simp

function tokenize :: "bool \<Rightarrow> bool \<Rightarrow> string \<Rightarrow> (bool \<times> token) list option" where
  \<comment> \<open>\<open>operand\<close>: the token before ends an operand, so that \<open>/\<close> divides; \<open>nl\<close>: a line
      terminator has been passed since that token.  \<open>None\<close> is a SyntaxError.\<close>
  "tokenize operand nl [] = Some []"
| "tokenize operand nl (c # cs) =
    (if isLineTerminator c then tokenize operand True cs
     else if isWhiteSpace c then tokenize operand nl cs
     else if isDigit c \<or> (c = CHR ''.'' \<and> startsDigit cs) then
       (case scanNumber (c # cs) of (ip, fp, rest) \<Rightarrow>
          if 1 < length ip \<and> hd ip = CHR ''0'' then None
          else consTok (nl, TNum (decimalValue ip fp)) (tokenize True False rest))
     else if c = CHR ''.'' then
       (if startsWith cs ''..'' then consTok (nl, TSpread) (tokenize False False (drop 2 cs))
        else None)
     else if c = CHR ''('' then consTok (nl, TOpen) (tokenize False False cs)
     else if c = CHR '')'' then consTok (nl, TClose) (tokenize True False cs)
     else if c = CHR ''/'' \<and> \<not> operand then
       (case scanRegExp cs of (body, r) \<Rightarrow>
          if body \<noteq> [] \<and> startsWith r ''/'' \<and> \<not> startsDigit (tl r) \<and> patternOk 0 False body
          then consTok (nl, TRegExp body) (tokenize True False (tl r))
          else None)
     else if c \<in> set ''+-*/%'' then consTok (nl, TOp c) (tokenize False False cs)
     else None)"
  by pat_completeness auto

termination tokenize
  apply (relation "measure (\<lambda>(operand, nl, s). length s)")
          apply (auto dest: scanNumber_decreases scanRegExp_shorter [OF sym])
  done

datatype ast =
    Lit rat
  | RegExpLit string
  | Unary char ast
  | Binary char ast ast
  | Call ast "ast option"
  | CallSpread ast ast

datatype pending = PUnary char | PBinary char | PGroup | PCall | PCallSpread

definition prec :: "char \<Rightarrow> nat" where
  \<comment> \<open>\<open>* / %\<close> bind tighter than \<open>+ -\<close>; operators of one level associate to the left\<close>
  "prec c = (if c \<in> set ''*/%'' then 2 else 1)"

fun reduce :: "nat \<Rightarrow> ast list \<Rightarrow> pending list \<Rightarrow> (ast list \<times> pending list) option" where
  \<comment> \<open>applies the pending unary operators and the pending binary operators of level
      \<open>p\<close> or above to the operands read so far\<close>
  "reduce p xs [] = Some (xs, [])"
| "reduce p xs (PUnary c # ps) =
     (case xs of a # r \<Rightarrow> reduce p (Unary c a # r) ps | _ \<Rightarrow> None)"
| "reduce p xs (PBinary c # ps) =
     (if p \<le> prec c
      then (case xs of b # a # r \<Rightarrow> reduce p (Binary c a b # r) ps | _ \<Rightarrow> None)
      else Some (xs, PBinary c # ps))"
| "reduce p xs ps = Some (xs, ps)"

fun parse :: "ast list \<Rightarrow> ast list \<Rightarrow> pending list \<Rightarrow> bool \<Rightarrow> (bool \<times> token) list \<Rightarrow> ast list option" where
  \<comment> \<open>the statements of the body, the first being the operand of \<open>return\<close>: finished
      statements, operands and pending operators of the current one, whether an operand
      is expected next, and the tokens left.  The end of the tokens is the \<open>;\<close> of the
      body.  \<open>None\<close> is a SyntaxError.\<close>
  "parse done xs ps expect [] =
     (if expect then None
      else (case reduce 0 xs ps of Some ([e], []) \<Rightarrow> Some (done @ [e]) | _ \<Rightarrow> None))"
| "parse done xs ps True ((nl, t) # ts) =
     (case t of
        TNum v \<Rightarrow> parse done (Lit v # xs) ps False ts
      | TRegExp b \<Rightarrow> parse done (RegExpLit b # xs) ps False ts
      | TOp c \<Rightarrow> if c = CHR ''+'' \<or> c = CHR ''-'' then parse done xs (PUnary c # ps) True ts
                 else None
      | TOpen \<Rightarrow> parse done xs (PGroup # ps) True ts
      | TClose \<Rightarrow>
          (case (ps, xs) of
             (PCall # ps', f # r) \<Rightarrow> parse done (Call f None # r) ps' False ts
           | _ \<Rightarrow> None)
      | TSpread \<Rightarrow>
          (case ps of PCall # ps' \<Rightarrow> parse done xs (PCallSpread # ps') True ts | _ \<Rightarrow> None))"
| "parse done xs ps False ((nl, t) # ts) =
     (case t of
        TOp c \<Rightarrow>
          (case reduce (prec c) xs ps of
             Some (xs', ps') \<Rightarrow> parse done xs' (PBinary c # ps') True ts
           | None \<Rightarrow> None)
      | TOpen \<Rightarrow> parse done xs (PCall # ps) True ts
      | TClose \<Rightarrow>
          (case reduce 0 xs ps of
             Some (a # r, PGroup # ps') \<Rightarrow> parse done (a # r) ps' False ts
           | Some (a # f # r, PCall # ps') \<Rightarrow> parse done (Call f (Some a) # r) ps' False ts
           | Some (a # f # r, PCallSpread # ps') \<Rightarrow> parse done (CallSpread f a # r) ps' False ts
           | _ \<Rightarrow> None)
      | TNum v \<Rightarrow>
          (if nl then
             (case reduce 0 xs ps of
                Some ([e], []) \<Rightarrow> parse (done @ [e]) [Lit v] [] False ts
              | _ \<Rightarrow> None)
           else None)
      | TRegExp b \<Rightarrow> None
      | TSpread \<Rightarrow> None)"

fun toNumber :: "jsvalue \<Rightarrow> jsnum" where
  \<comment> \<open>a RegExp object converts to its source text, and that text and every string built
      from it contain \<open>/\<close>, so they denote no number\<close>
  "toNumber (Num x) = x"
| "toNumber (RegExpV b) = NaN"
| "toNumber (StrV t) = NaN"

fun jsString :: "jsvalue \<Rightarrow> string" where
  \<comment> \<open>\<open>String(v)\<close>\<close>
  "jsString (Num x) = numToString x"
| "jsString (RegExpV b) = ''/'' @ b @ ''/''"
| "jsString (StrV t) = t"

definition binaryOp :: "char \<Rightarrow> jsvalue \<Rightarrow> jsvalue \<Rightarrow> jsvalue" where
  \<comment> \<open>\<open>+\<close> concatenates unless both operands are numbers\<close>
  "binaryOp c a b =
    (if c = CHR ''+'' then
       (case (a, b) of
          (Num x, Num y) \<Rightarrow> Num (numAdd x y)
        | _ \<Rightarrow> StrV (jsString a @ jsString b))
     else if c = CHR ''-'' then Num (numSub (toNumber a) (toNumber b))
     else if c = CHR ''*'' then Num (numMul (toNumber a) (toNumber b))
     else if c = CHR ''/'' then Num (numDiv (toNumber a) (toNumber b))
     else Num (numRem (toNumber a) (toNumber b)))"

fun eval :: "ast \<Rightarrow> jsvalue option" where
  \<comment> \<open>\<open>None\<close> is a TypeError: no value of this language can be called\<close>
  "eval (Lit mv) = Some (Num (fl mv))"
| "eval (RegExpLit b) = Some (RegExpV b)"
| "eval (Unary c a) =
     (case eval a of
        None \<Rightarrow> None
      | Some v \<Rightarrow> Some (Num (if c = CHR ''-'' then numNeg (toNumber v) else toNumber v)))"
| "eval (Binary c a b) =
     (case eval a of
        None \<Rightarrow> None
      | Some v \<Rightarrow> (case eval b of None \<Rightarrow> None | Some w \<Rightarrow> Some (binaryOp c v w)))"
| "eval (Call f a) = None"
| "eval (CallSpread f a) = None"

definition allowedChar :: "char \<Rightarrow> bool" where
  \<comment> \<open>the class \<open>[0-9+\-*/().\s%]\<close>\<close>
  "allowedChar c = (isDigit c \<or> c \<in> set ''+-*/().%'' \<or> isSpace c)"

fun noAdjacentOps :: "string \<Rightarrow> bool" where
  "noAdjacentOps (c # d # cs) = (\<not> (isOp c \<and> isOp d) \<and> noAdjacentOps (d # cs))"
| "noAdjacentOps cs = True"

definition runFunction :: "string \<Rightarrow> jserror + jsvalue" where
  \<comment> \<open>\<open>Function('"use strict"; return ' + text + ';')()\<close>\<close>
  "runFunction text =
    (if \<not> (list_all allowedChar text \<and> noAdjacentOps text) then Inl NotModelled
     else case tokenize False False text of
        None \<Rightarrow> Inl SyntaxError
      | Some ts \<Rightarrow>
          (case parse [] [] [] True ts of
             None \<Rightarrow> Inl SyntaxError
           | Some [] \<Rightarrow> Inl SyntaxError
           | Some (e # es) \<Rightarrow> (case eval e of None \<Rightarrow> Inl TypeError | Some v \<Rightarrow> Inr v)))"

section \<open>Evaluation\<close>

definition validChars :: "string \<Rightarrow> bool" where
  \<comment> \<open>\<open>/^[0-9+\-*/().\s%]+$/.test(expression)\<close>\<close>
  "validChars e = (e \<noteq> [] \<and> list_all allowedChar e)"

definition safeEval :: "string \<Rightarrow> jserror + jsvalue" where
  "safeEval expression =
    (let expr = sanitizeExpression (normalizePercent expression)
     in if \<not> validChars expression then Inl InvalidCharacters
        else runFunction (''('' @ expr @ '')''))"

definition roundResult :: "jsvalue \<Rightarrow> jsvalue" where
  \<comment> \<open>\<open>(typeof result === "number" && !Number.isInteger(result))
        ? parseFloat(result.toFixed(10)) : result\<close>\<close>
  "roundResult v =
    (case v of
       Num x \<Rightarrow> if \<not> isInteger x then Num (parseFloat (toFixed10 x)) else v
     | _ \<Rightarrow> v)"

definition calculateResult :: "bool \<Rightarrow> string \<Rightarrow> state \<Rightarrow> state" where
  \<comment> \<open>\<open>stored\<close>: \<open>saveHistory\<close> and \<open>renderHistory\<close>, the last two calls of \<open>addToHistory\<close>,
      return; when one of them throws, the array has its new entry already and the
      \<open>catch\<close> takes over.  \<open>now\<close> is the clock when the entry is made\<close>
  "calculateResult stored now st =
    (let expr = trim (display st)
     in if expr = [] then st
        else case safeEval expr of
           Inl err \<Rightarrow> st\<lparr>display := ''Error''\<rparr>
         | Inr res \<Rightarrow>
             (let rounded = roundResult res;
                  st1 = addToHistory now expr (jsString rounded) st
              in if stored then st1\<lparr>display := jsString rounded\<rparr>
                 else st1\<lparr>display := ''Error''\<rparr>))"

section \<open>The rounding of results, as the specification words it\<close>

text \<open>
  The specification says that a result that is not an integer is rounded to at most ten
  fractional decimal digits.  \<open>nearestTenDigits q\<close> is the decimal with ten fractional
  digits nearest to \<open>q\<close> (of two equally near, the one of larger magnitude), and
  \<open>roundedNumber q\<close> the Number that denotes it; \<open>surfaced\<close> applies it to the results
  that are not integers.  The code rounds through text, with \<open>toFixed\<close> and
  \<open>parseFloat\<close>.
\<close>

definition nearestTenDigits :: "rat \<Rightarrow> rat" where
  "nearestTenDigits q = sgn q * of_int \<lfloor>\<bar>q\<bar> * 10 ^ 10 + 1 / 2\<rfloor> / 10 ^ 10"

definition roundedNumber :: "rat \<Rightarrow> jsnum" where
  "roundedNumber q =
    (if nearestTenDigits q = 0 then signedZero (q < 0) else fl (nearestTenDigits q))"

definition surfaced :: "jsnum \<Rightarrow> jsnum" where
  "surfaced x = (case x of Fin q \<Rightarrow> if of_int \<lfloor>q\<rfloor> = q then x else roundedNumber q | _ \<Rightarrow> x)"

text \<open>A Number is one of the values that rounding produces.\<close>

definition isDouble :: "jsnum \<Rightarrow> bool" where
  "isDouble x = (case x of Fin q \<Rightarrow> fl q = Fin q | _ \<Rightarrow> True)"

section \<open>Rounding to a Number\<close>

lemma ilog2_bounds:
  assumes "0 < a"
  shows "2 powi (ilog2 a) \<le> a \<and> a < 2 powi (ilog2 a + 1)"
proof (cases "1 \<le> a")
  case True
  define n where "n = \<lfloor>a\<rfloor>"
  have n1: "1 \<le> n" using True by (simp add: n_def le_floor_iff)
  then have npos: "0 < n" by simp
  have bl: "1 \<le> bitlen n" using npos by (simp add: bitlen_alt_def)
  from bitlen_bounds [OF npos] have lo: "2 ^ nat (bitlen n - 1) \<le> n" and hi: "n < 2 ^ nat (bitlen n)"
    by simp_all
  have "(2::rat) powi (bitlen n - 1) = 2 ^ nat (bitlen n - 1)"
    using bl by (simp add: power_int_def)
  also have "\<dots> \<le> of_int n" using lo by simp
  also have "\<dots> \<le> a" by (simp add: n_def)
  finally have A: "2 powi (bitlen n - 1) \<le> a" .
  have "n + 1 \<le> 2 ^ nat (bitlen n)" using hi by simp
  then have "(of_int (n + 1) :: rat) \<le> 2 ^ nat (bitlen n)"
    by (simp only: of_int_le_numeral_power_cancel_iff)
  moreover have "a < of_int (n + 1)" using floor_correct [of a] by (simp add: n_def)
  moreover have "(2::rat) powi (bitlen n) = 2 ^ nat (bitlen n)"
    using bl by (simp add: power_int_def)
  ultimately have B: "a < 2 powi (bitlen n - 1 + 1)" by simp
  from A B True show ?thesis by (simp add: ilog2_def n_def)
next
  case False
  define b where "b = 1 / a"
  define N where "N = \<lceil>b\<rceil>"
  have b1: "1 < b" using False assms by (simp add: b_def)
  have N2: "2 \<le> N" using b1 by (simp add: N_def le_ceiling_iff)
  then have pos: "0 < N - 1" by simp
  define j where "j = bitlen (N - 1)"
  have j1: "1 \<le> j" using pos by (simp add: j_def bitlen_alt_def)
  from bitlen_bounds [OF pos] have lo: "2 ^ nat (j - 1) \<le> N - 1" and hi: "N - 1 < 2 ^ nat j"
    by (simp_all add: j_def)
  have "(2 ^ nat (j - 1) :: rat) \<le> of_int (N - 1)"
    using lo by (simp only: numeral_power_le_of_int_cancel_iff)
  moreover have "of_int (N - 1) < b" using ceiling_correct [of b] by (simp add: N_def)
  ultimately have blo: "2 ^ nat (j - 1) < b" by (rule le_less_trans)
  have "N \<le> 2 ^ nat j" using hi by simp
  then have "(of_int N :: rat) \<le> 2 ^ nat j"
    by (simp only: of_int_le_numeral_power_cancel_iff)
  moreover have "b \<le> of_int N" by (simp add: N_def)
  ultimately have bhi: "b \<le> 2 ^ nat j" by (rule order_trans [rotated])
  have a_eq: "a = 1 / b" by (simp add: b_def)
  have bpos: "0 < b" using b1 by simp
  have "(2::rat) powi (- j) = 1 / 2 ^ nat j" using j1 by (simp add: power_int_def field_simps)
  also have "\<dots> \<le> 1 / b" using bhi bpos by (simp add: frac_le)
  finally have A: "2 powi (- j) \<le> a" by (simp add: a_eq)
  have "1 / b < 1 / 2 ^ nat (j - 1)" using blo by (simp add: frac_less2)
  also have "\<dots> = (2::rat) powi (- j + 1)"
  proof (cases "j = 1")
    case True then show ?thesis by simp
  next
    case False
    with j1 have "- j + 1 < 0" by simp
    moreover have "nat (- (- j + 1)) = nat (j - 1)" by simp
    ultimately show ?thesis by (simp add: power_int_def field_simps)
  qed
  finally have B: "a < 2 powi (- j + 1)" by (simp add: a_eq)
  from A B False show ?thesis by (simp add: ilog2_def j_def N_def b_def)
qed

lemma pow2_exp_unique:
  assumes "(2::rat) powi k \<le> a" "a < 2 powi (k + 1)" "2 powi k' \<le> a" "a < 2 powi (k' + 1)"
  shows "k = k'"
proof (rule ccontr)
  assume "k \<noteq> k'"
  then consider "k + 1 \<le> k'" | "k' + 1 \<le> k" by linarith
  then show False
  proof cases
    case 1
    then have "(2::rat) powi (k + 1) \<le> 2 powi k'" by (intro power_int_increasing) simp_all
    with assms show False by simp
  next
    case 2
    then have "(2::rat) powi (k' + 1) \<le> 2 powi k" by (intro power_int_increasing) simp_all
    with assms show False by simp
  qed
qed

lemma ilog2_unique:
  assumes "2 powi k \<le> a" "a < 2 powi (k + 1)"
  shows "ilog2 a = k"
proof -
  have "0 < a" using assms(1) by (meson less_le_trans zero_less_numeral zero_less_power_int)
  from ilog2_bounds [OF this] assms show ?thesis by (meson pow2_exp_unique)
qed

lemma roundHalfEven_of_int [simp]: "roundHalfEven (of_int n) = n"
  by (simp add: roundHalfEven_def)

lemma roundHalfEven_ge: "of_int n \<le> x \<Longrightarrow> n \<le> roundHalfEven x"
proof -
  assume "of_int n \<le> x"
  then have "n \<le> \<lfloor>x\<rfloor>" by (simp add: le_floor_iff)
  then show ?thesis by (auto simp: roundHalfEven_def Let_def)
qed

lemma roundHalfEven_le: "x \<le> of_int n \<Longrightarrow> roundHalfEven x \<le> n"
proof (cases "x = of_int n")
  case True
  then show ?thesis by simp
next
  case False
  assume "x \<le> of_int n"
  with False have "x < of_int n" by simp
  then have "\<lfloor>x\<rfloor> < n" by (simp add: floor_less_iff)
  then show ?thesis by (auto simp: roundHalfEven_def Let_def)
qed

lemma fl_normal:
  assumes lo: "2 powi k \<le> a" and hi: "a < 2 powi (k + 1)" and k: "- 1022 \<le> k" "k \<le> 1022"
  shows "fl a = Fin (of_int (roundHalfEven (a / 2 powi (k - 52))) * 2 powi (k - 52))"
proof -
  have apos: "0 < a" using lo by (meson less_le_trans zero_less_numeral zero_less_power_int)
  have il: "ilog2 a = k" by (rule ilog2_unique [OF lo hi])
  define e where "e = k - 52"
  have e: "max (ilog2 a - 52) (- 1074) = e" using il k by (simp add: e_def)
  define m where "m = roundHalfEven (a / 2 powi e)"
  have p: "(0::rat) < 2 powi e" by simp
  have "(2::rat) powi (52 + e) = 2 powi 52 * 2 powi e" by (rule power_int_add) simp
  then have "(2::rat) powi k = 2 powi 52 * 2 powi e" by (simp add: e_def)
  then have "2 powi 52 \<le> a / 2 powi e" using lo p by (simp add: pos_le_divide_eq)
  then have "of_int (2 ^ 52) \<le> a / 2 powi e" by simp
  then have mlo: "2 ^ 52 \<le> m" unfolding m_def by (rule roundHalfEven_ge)
  have "(2::rat) powi (53 + e) = 2 powi 53 * 2 powi e" by (rule power_int_add) simp
  then have k1: "(2::rat) powi (k + 1) = 2 powi 53 * 2 powi e" by (simp add: e_def add.commute)
  then have "a / 2 powi e \<le> 2 powi 53" using hi p by (simp add: pos_divide_le_eq)
  then have "a / 2 powi e \<le> of_int (2 ^ 53)" by simp
  then have mhi: "m \<le> 2 ^ 53" unfolding m_def by (rule roundHalfEven_le)
  have "(of_int m :: rat) \<le> 2 ^ 53" using mhi by (simp only: of_int_le_numeral_power_cancel_iff)
  then have "(of_int m :: rat) * 2 powi e \<le> 2 powi 53 * 2 powi e"
    by (intro mult_right_mono) simp_all
  also have "\<dots> = 2 powi (k + 1)" using k1 by simp
  also have "\<dots> \<le> 2 powi 1023" using k by (intro power_int_increasing) simp_all
  also have "\<dots> < 2 powi 1024" by (intro power_int_strict_increasing) simp_all
  also have "\<dots> = overflowThreshold" by (simp add: overflowThreshold_def)
  finally have nov: "\<not> overflowThreshold \<le> of_int m * 2 powi e" by simp
  have mne: "m \<noteq> 0" using mlo by auto
  show ?thesis
    using apos e nov mne unfolding fl_def Let_def m_def [symmetric] e_def [symmetric]
    by (simp add: m_def [symmetric])
qed

lemma pow2_le_imp_le:
  assumes "(2::rat) powi a \<le> 2 powi b"
  shows "a \<le> b"
proof (rule ccontr)
  assume "\<not> a \<le> b"
  then have "b < a" by simp
  then have "(2::rat) powi b < 2 powi a" by (intro power_int_strict_increasing) simp_all
  with assms show False by simp
qed

lemma fl_exact:
  assumes m: "0 < m" "m \<le> 2 ^ 53" and e: "- 1074 \<le> e"
    and small: "of_int m * 2 powi e < overflowThreshold"
  shows "fl (of_int m * 2 powi e) = Fin (of_int m * 2 powi e)"
proof -
  define v :: rat where "v = of_int m * 2 powi e"
  have p: "\<And>i. (0::rat) < 2 powi i" by simp
  have vpos: "0 < v" using m(1) by (simp add: v_def)
  define k where "k = ilog2 v"
  from ilog2_bounds [OF vpos] have klo: "2 powi k \<le> v" and khi: "v < 2 powi (k + 1)"
    by (simp_all add: k_def)
  have "(of_int m :: rat) \<le> 2 ^ 53" using m(2) by (simp only: of_int_le_numeral_power_cancel_iff)
  then have "v \<le> 2 ^ 53 * 2 powi e" unfolding v_def by (intro mult_right_mono) simp_all
  also have "\<dots> = 2 powi 53 * 2 powi e" by simp
  also have "\<dots> = 2 powi (53 + e)" by (rule power_int_add [symmetric]) simp
  finally have vle: "v \<le> 2 powi (53 + e)" .
  have kle: "k \<le> 53 + e" using klo vle by (intro pow2_le_imp_le) (rule order_trans)
  define e' where "e' = max (k - 52) (- 1074)"
  have "\<exists>n. v = of_int n * 2 powi e' \<and> 0 < n"
  proof (cases "e' \<le> e")
    case True
    then have "(2::rat) powi e = 2 powi (e - e') * 2 powi e'"
      by (simp flip: power_int_add)
    also have "(2::rat) powi (e - e') = of_int (2 ^ nat (e - e'))"
      using True by (simp add: power_int_def)
    finally have "v = of_int (m * 2 ^ nat (e - e')) * 2 powi e'"
      by (simp add: v_def)
    moreover have "0 < m * 2 ^ nat (e - e')" using m(1) by simp
    ultimately show ?thesis by blast
  next
    case False
    with e have e'k: "e' = k - 52" and "e < k - 52"
      by (auto simp: e'_def max_def split: if_splits)
    with kle have k: "k = 53 + e" by simp
    with klo vle have "v = 2 powi (53 + e)" by simp
    also have "\<dots> = 2 powi 52 * 2 powi e'"
      unfolding e'k k by (subst power_int_add [symmetric]) (simp_all add: algebra_simps)
    also have "(2::rat) powi 52 = of_int (2 ^ 52)" by simp
    finally have "v = of_int (2 ^ 52) * 2 powi e'" .
    then show ?thesis by (intro exI [of _ "2 ^ 52"]) simp
  qed
  then obtain n where n: "v = of_int n * 2 powi e'" "0 < n" by blast
  have q: "v / 2 powi e' = of_int n" using n(1) by simp
  have "fl v = Fin v"
    using vpos small n(2)
    unfolding fl_def Let_def k_def [symmetric] e'_def [symmetric]
    by (simp add: q n(1) [symmetric] v_def [symmetric] k_def [symmetric] e'_def [symmetric])
  then show ?thesis by (simp add: v_def)
qed

lemma fl_numeral [simp]:
  "numeral w \<le> (2::int) ^ 53 \<Longrightarrow> fl (numeral w) = Fin (numeral w)"
proof -
  assume a: "numeral w \<le> (2::int) ^ 53"
  have "(of_int (numeral w) :: rat) * 2 powi 0 < overflowThreshold"
  proof -
    have "(of_int (numeral w) :: rat) \<le> of_int (2 ^ 53)" using a by (simp only: of_int_le_iff)
    also have "\<dots> < overflowThreshold" by (simp add: overflowThreshold_def)
    finally show ?thesis by simp
  qed
  from fl_exact [of "numeral w" 0, OF _ a _ this] show ?thesis by simp
qed

lemma floor_rat_numeral_div:
  "\<lfloor>(numeral a :: rat) / numeral b\<rfloor> = numeral a div numeral b"
  by (metis floor_divide_of_int_eq of_int_numeral)

lemma fl_half: "fl (1 / 2) = Fin (1 / 2)"
  using fl_exact [of 1 "- 1"] by (simp add: overflowThreshold_def)

lemma fl_tenth: "fl (1 / 10) = Fin (3602879701896397 / 36028797018963968)"
  using fl_normal [of "- 4" "1 / 10"] by (simp add: roundHalfEven_def Let_def floor_rat_numeral_div)

lemma fl_sample:
  "fl (7202156524090897203 / 36028797018963968) = Fin (7033355980557517 / 35184372088832)"
  using fl_normal [of 7 "7202156524090897203 / 36028797018963968"] by (simp add: roundHalfEven_def Let_def floor_rat_numeral_div)

section \<open>Evaluation of expressions\<close>

lemmas char_simps = isDigit_def isOp_def isSpace_def isWhiteSpace_def isLineTerminator_def
  allowedChar_def startsDigit_def

lemmas normalize_simps = normalizePercent_def matchPercent_def sanitizeExpression_def trim_def
  stripLeading_def collapseOps_def matchOps_def

lemmas run_simps = safeEval_def validChars_def runFunction_def scanNumber_def scanRegExp_def
  consTok_def decimalValue_def valueOfDigits_def digitValue_def binaryOp_def prec_def
  numAdd_def numSub_def numMul_def numDiv_def

lemma safeEval_5_plus_3: "safeEval ''5+3'' = Inr (Num (Fin 8))"
  by (simp add: char_simps normalize_simps run_simps)

lemma safeEval_12_div_4: "safeEval ''12/4'' = Inr (Num (Fin 3))"
  by (simp add: char_simps normalize_simps run_simps)

lemma safeEval_7_times_6: "safeEval ''7*6'' = Inr (Num (Fin 42))"
  by (simp add: char_simps normalize_simps run_simps)

lemma safeEval_50_percent: "safeEval ''50%'' = Inr (Num (Fin (1 / 2)))"
  by (simp add: char_simps normalize_simps run_simps fl_half)

text \<open>
  C5.  On the four samples the evaluator returns the Numbers 8, 3, 42 and 0.5.
\<close>

theorem safeEval_samples:
  "safeEval ''5+3'' = Inr (Num (Fin 8)) \<and> safeEval ''12/4'' = Inr (Num (Fin 3))
   \<and> safeEval ''7*6'' = Inr (Num (Fin 42)) \<and> safeEval ''50%'' = Inr (Num (Fin (1 / 2)))"
  by (simp only: safeEval_5_plus_3 safeEval_12_div_4 safeEval_7_times_6 safeEval_50_percent)

lemma runFunction_not_InvalidCharacters: "runFunction t \<noteq> Inl InvalidCharacters"
  by (simp add: runFunction_def split: option.splits list.splits)

lemma safeEval_plus: "safeEval ''+'' = Inl SyntaxError"
  by (simp add: char_simps normalize_simps run_simps)

text \<open>
  C1.  When the raw text has a character outside the class, \<open>safeEval\<close> throws the
  error of the character test.  It throws that error exactly when the raw text fails the
  test, whatever the sanitized text is: "+" passes the test (the host then rejects the
  text with a SyntaxError), although its sanitized form, the empty text, would not pass.
\<close>

theorem safeEval_invalid_characters:
  "(\<not> list_all allowedChar raw \<longrightarrow> safeEval raw = Inl InvalidCharacters)
   \<and> (safeEval raw = Inl InvalidCharacters \<longleftrightarrow> \<not> validChars raw)
   \<and> validChars ''+'' \<and> \<not> validChars (sanitizeExpression (normalizePercent ''+''))
   \<and> safeEval ''+'' \<noteq> Inl InvalidCharacters"
proof -
  have "safeEval raw = Inl InvalidCharacters \<longleftrightarrow> \<not> validChars raw"
    by (simp add: safeEval_def runFunction_not_InvalidCharacters)
  moreover have "\<not> list_all allowedChar raw \<longrightarrow> \<not> validChars raw"
    by (simp add: validChars_def)
  moreover have "validChars ''+''" "\<not> validChars (sanitizeExpression (normalizePercent ''+''))"
    by (simp_all add: char_simps normalize_simps validChars_def)
  ultimately show ?thesis by (simp add: safeEval_plus)
qed

theorem safeEval_invalid_characters_witness:
  "\<not> list_all allowedChar ''abc'' \<and> safeEval ''abc'' = Inl InvalidCharacters
   \<and> safeEval ''2*x'' = Inl InvalidCharacters"
  using safeEval_invalid_characters [of "''abc''"] safeEval_invalid_characters [of "''2*x''"]
  by (simp add: char_simps)

lemma safeEval_empty_parens: "safeEval ''()'' = Inl SyntaxError"
  by (simp add: char_simps normalize_simps run_simps)

lemma safeEval_double_percent: "safeEval ''5%%'' = Inl SyntaxError"
  by (simp add: char_simps normalize_simps run_simps)

text \<open>
  C10.  "()" and "5%%" consist of allowed characters and still fail, with a SyntaxError of
  the host.  Whenever \<open>safeEval\<close> throws, \<open>calculateResult\<close> shows "Error" and leaves the
  history as it was: \<open>addToHistory\<close> is not reached, so the storage has no part in it.
\<close>

theorem calculateResult_failure:
  "validChars ''()'' \<and> safeEval ''()'' = Inl SyntaxError
   \<and> validChars ''5%%'' \<and> safeEval ''5%%'' = Inl SyntaxError
   \<and> (trim (display st) \<noteq> [] \<and> safeEval (trim (display st)) = Inl err
        \<longrightarrow> calculateResult stored now st = st\<lparr>display := ''Error''\<rparr>)"
proof -
  have "validChars ''()''" "validChars ''5%%''"
    by (simp_all add: validChars_def char_simps)
  moreover have "calculateResult stored now st = st\<lparr>display := ''Error''\<rparr>"
    if "trim (display st) \<noteq> []" "safeEval (trim (display st)) = Inl err"
    using that by (simp add: calculateResult_def Let_def)
  ultimately show ?thesis
    by (simp add: safeEval_empty_parens safeEval_double_percent)
qed

theorem calculateResult_failure_witness:
  "calculateResult True ''now'' \<lparr>display = '' () '', history = []\<rparr>
     = \<lparr>display = ''Error'', history = []\<rparr>
   \<and> calculateResult False ''now'' \<lparr>display = '' () '', history = []\<rparr>
     = \<lparr>display = ''Error'', history = []\<rparr>"
  using calculateResult_failure [of "\<lparr>display = '' () '', history = []\<rparr>" SyntaxError True "''now''"]
        calculateResult_failure [of "\<lparr>display = '' () '', history = []\<rparr>" SyntaxError False "''now''"]
  by (simp add: trim_def char_simps safeEval_empty_parens)

section \<open>Operator runs\<close>

lemma replaceAll_skip: "replaceAll m k s = replaceAll m 0 (drop k s)"
proof (induction s arbitrary: k)
  case Nil
  then show ?case by (cases k) simp_all
next
  case (Cons c cs)
  then show ?case by (cases k) simp_all
qed

lemma takeWhile_isOp_run:
  assumes "\<forall>c\<in>set run. isOp c" "post = [] \<or> \<not> isOp (hd post)"
  shows "takeWhile isOp (run @ post) = run"
  using assms by (cases post) (simp_all add: takeWhile_append)

lemma collapseOps_Nil: "collapseOps [] = []"
  by (simp add: collapseOps_def)

lemma collapseOps_nonop: "\<not> isOp c \<Longrightarrow> collapseOps (c # s) = c # collapseOps s"
  by (simp add: collapseOps_def matchOps_def)

lemma collapseOps_run:
  assumes ne: "run \<noteq> []" and ops: "\<forall>c\<in>set run. isOp c"
    and post: "post = [] \<or> \<not> isOp (hd post)"
  shows "collapseOps (run @ post) = last run # collapseOps post"
proof -
  obtain c cs where run: "run = c # cs" using ne by (cases run) auto
  have tw: "takeWhile isOp (c # cs @ post) = c # cs"
    using takeWhile_isOp_run [OF ops post] run by simp
  show ?thesis
  proof (cases cs)
    case Nil
    with tw run show ?thesis by (simp add: collapseOps_def matchOps_def)
  next
    case (Cons d ds)
    have "collapseOps (run @ post) = last run # replaceAll matchOps (length cs) (cs @ post)"
      using tw run Cons by (simp add: collapseOps_def matchOps_def Let_def)
    also have "replaceAll matchOps (length cs) (cs @ post) = collapseOps post"
      by (subst replaceAll_skip) (simp add: collapseOps_def)
    finally show ?thesis .
  qed
qed

lemma collapseOps_append:
  "pre = [] \<or> \<not> isOp (last pre) \<Longrightarrow> collapseOps (pre @ rest) = collapseOps pre @ collapseOps rest"
proof (induction "length pre" arbitrary: pre rule: less_induct)
  case less
  show ?case
  proof (cases pre)
    case Nil
    then show ?thesis by (simp add: collapseOps_Nil)
  next
    case (Cons c cs)
    with less.prems have lastnon: "\<not> isOp (last pre)" by simp
    show ?thesis
    proof (cases "isOp c")
      case False
      have "cs = [] \<or> \<not> isOp (last cs)" using lastnon Cons by auto
      then have "collapseOps (cs @ rest) = collapseOps cs @ collapseOps rest"
        using less.hyps [of cs] Cons by simp
      with False Cons show ?thesis by (simp add: collapseOps_nonop)
    next
      case True
      define run where "run = takeWhile isOp pre"
      define mid where "mid = dropWhile isOp pre"
      have pre: "pre = run @ mid" by (simp add: run_def mid_def)
      have runne: "run \<noteq> []" using True Cons by (simp add: run_def)
      have runops: "\<forall>c\<in>set run. isOp c" by (auto simp: run_def dest: set_takeWhileD)
      have midne: "mid \<noteq> []"
      proof
        assume "mid = []"
        then have "\<forall>x\<in>set pre. isOp x" by (simp add: mid_def)
        moreover have "last pre \<in> set pre" using Cons by simp
        ultimately show False using lastnon by blast
      qed
      have midhd: "\<not> isOp (hd mid)" using midne by (simp add: mid_def hd_dropWhile)
      have midlast: "\<not> isOp (last mid)" using lastnon pre midne by simp
      have len: "length mid < length pre" using pre runne by (metis length_append length_greater_0_conv less_add_same_cancel2 add.commute)
      have IH: "collapseOps (mid @ rest) = collapseOps mid @ collapseOps rest"
        using less.hyps [OF len] midlast by simp
      have "collapseOps (run @ (mid @ rest)) = last run # collapseOps (mid @ rest)"
        using collapseOps_run [OF runne runops, of "mid @ rest"] midhd midne by simp
      moreover have "collapseOps (run @ mid) = last run # collapseOps mid"
        using collapseOps_run [OF runne runops, of mid] midhd by simp
      ultimately show ?thesis using IH pre by simp
    qed
  qed
qed

lemma collapseOps_last: "s \<noteq> [] \<Longrightarrow> collapseOps s \<noteq> [] \<and> last (collapseOps s) = last s"
proof (induction "length s" arbitrary: s rule: less_induct)
  case less
  then obtain c cs where s: "s = c # cs" by (cases s) auto
  show ?case
  proof (cases "isOp c")
    case False
    show ?thesis
    proof (cases cs)
      case Nil with s False show ?thesis by (simp add: collapseOps_nonop collapseOps_Nil)
    next
      case (Cons d ds)
      with less.hyps [of cs] s False show ?thesis by (simp add: collapseOps_nonop)
    qed
  next
    case True
    define run where "run = takeWhile isOp s"
    define mid where "mid = dropWhile isOp s"
    have sp: "s = run @ mid" by (simp add: run_def mid_def)
    have runne: "run \<noteq> []" using True s by (simp add: run_def)
    have runops: "\<forall>c\<in>set run. isOp c" by (auto simp: run_def dest: set_takeWhileD)
    have midhd: "mid = [] \<or> \<not> isOp (hd mid)"
      using hd_dropWhile [of isOp s] by (auto simp: mid_def)
    have eq: "collapseOps s = last run # collapseOps mid"
      using collapseOps_run [OF runne runops midhd] sp by simp
    show ?thesis
    proof (cases mid)
      case Nil
      with eq sp show ?thesis by (simp add: collapseOps_Nil)
    next
      case (Cons d ds)
      have "length mid < length s" using sp runne by (metis length_append length_greater_0_conv less_add_same_cancel2 add.commute)
      from less.hyps [OF this] Cons have "collapseOps mid \<noteq> [] \<and> last (collapseOps mid) = last mid" by simp
      with eq sp Cons show ?thesis by simp
    qed
  qed
qed

lemma collapseOps_hd: "s \<noteq> [] \<Longrightarrow> \<not> isOp (hd s) \<Longrightarrow> hd (collapseOps s) = hd s"
  by (cases s) (simp_all add: collapseOps_nonop)


lemma isOp_not_space: "isOp c \<Longrightarrow> \<not> isSpace c"
  by (auto simp: isOp_def isSpace_def isWhiteSpace_def isLineTerminator_def)

lemma trim_around:
  assumes "mid \<noteq> []" "\<not> isSpace (hd mid)" "\<not> isSpace (last mid)"
  shows "trim (a @ mid @ b) = dropWhile isSpace a @ mid @ rev (dropWhile isSpace (rev b))"
proof -
  obtain x xs where mid: "mid = x # xs" using assms(1) by (cases mid) auto
  have front: "dropWhile isSpace (a @ mid @ b) = dropWhile isSpace a @ mid @ b"
    using assms(2) mid by (simp add: dropWhile_append3)
  obtain y ys where rmid: "rev mid = y # ys" using assms(1) by (cases "rev mid") auto
  then have "y = last mid" by (metis assms(1) hd_rev list.sel(1))
  then have "\<not> isSpace y" using assms(3) by simp
  then have "dropWhile isSpace (rev b @ rev mid @ rev (dropWhile isSpace a))
    = dropWhile isSpace (rev b) @ rev mid @ rev (dropWhile isSpace a)"
    using rmid by (simp add: dropWhile_append3)
  with front show ?thesis by (simp add: trim_def)
qed

lemma trimEnd_prefix: "\<exists>r. b = rev (dropWhile P (rev b)) @ r"
proof -
  have "rev b = takeWhile P (rev b) @ dropWhile P (rev b)" by simp
  then have "b = rev (dropWhile P (rev b)) @ rev (takeWhile P (rev b))"
    by (metis rev_append rev_rev_ident)
  then show ?thesis by blast
qed

lemma dropWhile_suffix: "\<exists>r. a = r @ dropWhile P a"
  by (metis takeWhile_dropWhile_id)

lemma stripLeading_last:
  "a \<noteq> [] \<Longrightarrow> \<not> isOp (last a) \<Longrightarrow> stripLeading a = [] \<or> \<not> isOp (last (stripLeading a))"
  by (cases a) (auto simp: stripLeading_def)

lemma stripLeading_append:
  "a \<noteq> [] \<Longrightarrow> stripLeading (a @ b) = stripLeading a @ b"
  by (cases a) (auto simp: stripLeading_def)

lemma sanitize_run:
  assumes len: "2 \<le> length run" and ops: "\<forall>c\<in>set run. isOp c"
    and pre: "pre = [] \<or> \<not> isOp (last pre)"
    and post: "post = [] \<or> \<not> isOp (hd post)"
  shows "sanitizeExpression (pre @ run @ post)
           = collapseOps (stripLeading (dropWhile isSpace pre)) @ [last run]
             @ collapseOps (rev (dropWhile isSpace (rev post)))
         \<and> (collapseOps (stripLeading (dropWhile isSpace pre)) = []
              \<or> \<not> isOp (last (collapseOps (stripLeading (dropWhile isSpace pre)))))
         \<and> (collapseOps (rev (dropWhile isSpace (rev post))) = []
              \<or> \<not> isOp (hd (collapseOps (rev (dropWhile isSpace (rev post))))))"
proof -
  define P where "P = dropWhile isSpace pre"
  define Q where "Q = rev (dropWhile isSpace (rev post))"
  have runne: "run \<noteq> []" using len by auto
  have "hd run \<in> set run" "last run \<in> set run" using runne by simp_all
  then have ends: "\<not> isSpace (hd run)" "\<not> isSpace (last run)"
    using ops isOp_not_space by blast+
  have tr: "trim (pre @ run @ post) = P @ run @ Q"
    unfolding P_def Q_def by (rule trim_around [OF runne ends])
  have Plast: "P = [] \<or> \<not> isOp (last P)"
  proof (cases "P = []")
    case False
    obtain r where "pre = r @ P" unfolding P_def using dropWhile_suffix by blast
    with False have "last P = last pre" "pre \<noteq> []" by auto
    with pre show ?thesis by simp
  qed simp
  have Qhd: "Q = [] \<or> \<not> isOp (hd Q)"
  proof (cases "Q = []")
    case False
    obtain r where "post = Q @ r" unfolding Q_def using trimEnd_prefix by blast
    with False have "hd Q = hd post" "post \<noteq> []" by auto
    with post show ?thesis by simp
  qed simp
  define P' where "P' = stripLeading P"
  have P'last: "P' = [] \<or> \<not> isOp (last P')"
    using Plast stripLeading_last [of P] by (auto simp: P'_def stripLeading_def)
  have main: "collapseOps (stripLeading (P @ run @ Q)) = collapseOps P' @ [last run] @ collapseOps Q"
  proof (cases "P = []")
    case True
    have tlne: "tl run \<noteq> []" using len by (cases run; cases "tl run") auto
    have A: "collapseOps (run @ Q) = last run # collapseOps Q"
      by (rule collapseOps_run [OF runne ops Qhd])
    have "\<forall>c\<in>set (tl run). isOp c" using ops runne by (metis list.set_sel(2))
    then have "collapseOps (tl run @ Q) = last (tl run) # collapseOps Q"
      by (rule collapseOps_run [OF tlne _ Qhd])
    moreover have "last (tl run) = last run" using tlne runne by (metis last_tl)
    ultimately have B: "collapseOps (tl run @ Q) = last run # collapseOps Q" by simp
    have "stripLeading (run @ Q) = run @ Q \<or> stripLeading (run @ Q) = tl run @ Q"
      using runne by (cases run) (auto simp: stripLeading_def)
    then have "collapseOps (stripLeading (run @ Q)) = last run # collapseOps Q"
      using A B by auto
    moreover have "P' = []" using True by (simp add: P'_def stripLeading_def)
    ultimately show ?thesis using True by (simp add: collapseOps_Nil)
  next
    case False
    then have "stripLeading (P @ run @ Q) = P' @ run @ Q"
      by (simp add: stripLeading_append P'_def)
    moreover have "collapseOps (P' @ run @ Q) = collapseOps P' @ collapseOps (run @ Q)"
      by (rule collapseOps_append [OF P'last])
    moreover have "collapseOps (run @ Q) = last run # collapseOps Q"
      by (rule collapseOps_run [OF runne ops Qhd])
    ultimately show ?thesis by simp
  qed
  have left: "collapseOps P' = [] \<or> \<not> isOp (last (collapseOps P'))"
    using P'last collapseOps_last [of P'] by (cases "P' = []") (auto simp: collapseOps_Nil)
  have right: "collapseOps Q = [] \<or> \<not> isOp (hd (collapseOps Q))"
    using Qhd collapseOps_hd [of Q] by (cases "Q = []") (auto simp: collapseOps_Nil)
  from tr main left right show ?thesis
    by (simp add: sanitizeExpression_def P'_def P_def Q_def)
qed

subsection \<open>Runs and the percent rewriting\<close>

lemma span_digits_stop:
  assumes "stopper rest"
  shows "takeWhile isDigit (t @ rest) = takeWhile isDigit t"
    and "dropWhile isDigit (t @ rest) = dropWhile isDigit t @ rest"
proof -
  have r: "takeWhile isDigit rest = []" "dropWhile isDigit rest = rest"
    using assms by (cases rest; auto simp: stopper_def isOp_def isDigit_def)+
  show "takeWhile isDigit (t @ rest) = takeWhile isDigit t"
    by (induction t) (simp_all add: r)
  show "dropWhile isDigit (t @ rest) = dropWhile isDigit t @ rest"
    by (induction t) (simp_all add: r)
qed

lemma startsWith_stop:
  assumes "stopper rest" "\<not> isOp c"
  shows "startsWith (t @ rest) [c] = startsWith t [c]"
  using assms by (cases t; cases rest) (auto simp: stopper_def)

lemma matchPercent_append:
  assumes "stopper rest"
  shows "matchPercent (t @ rest) = matchPercent t"
proof -
  have p: "\<not> isOp (CHR ''%'')" "\<not> isOp (CHR ''.'')" by (simp_all add: isOp_def)
  define r where "r = dropWhile isDigit t"
  have tl_r: "startsWith r ''.'' \<Longrightarrow> tl (r @ rest) = tl r @ rest" by (cases r) simp_all
  show ?thesis
    unfolding matchPercent_def Let_def span_digits_stop [OF assms] r_def [symmetric]
    by (auto simp: startsWith_stop [OF assms] p tl_r span_digits_stop [OF assms])
qed

lemma matchPercent_length:
  "matchPercent t = Some (r, n) \<Longrightarrow> 0 < n \<and> n \<le> length t"
proof -
  assume a: "matchPercent t = Some (r, n)"
  define d where "d = takeWhile isDigit t"
  define u where "u = dropWhile isDigit t"
  have "length (d @ u) = length t" unfolding d_def u_def by (simp only: takeWhile_dropWhile_id)
  then have len: "length t = length d + length u" by simp
  show ?thesis
  proof (cases "startsWith u ''%''")
    case True
    with a have "n = length d + 1"
      by (auto simp: matchPercent_def Let_def d_def [symmetric] u_def [symmetric] split: if_splits)
    moreover from True have "1 \<le> length u" by (cases u) auto
    ultimately show ?thesis using len by linarith
  next
    case False
    with a have dot: "startsWith u ''.''" and pc: "startsWith (dropWhile isDigit (tl u)) ''%''"
      and n: "n = length d + length (takeWhile isDigit (tl u)) + 2"
      by (auto simp: matchPercent_def Let_def d_def [symmetric] u_def [symmetric] split: if_splits)
    from dot obtain u' where u: "u = CHR ''.'' # u'" by (cases u) auto
    have ne: "dropWhile isDigit u' \<noteq> []"
    proof
      assume e: "dropWhile isDigit u' = []"
      from pc have "startsWith (dropWhile isDigit u') ''%''" by (simp add: u)
      then show False unfolding e by simp
    qed
    have "length (takeWhile isDigit u' @ dropWhile isDigit u') = length u'"
      by (simp only: takeWhile_dropWhile_id)
    with ne have "length (takeWhile isDigit u') < length u'" by (cases "dropWhile isDigit u'") auto
    with n u len show ?thesis by simp
  qed
qed

lemma replaceAll_percent_append:
  assumes "stopper rest"
  shows "k \<le> length t \<Longrightarrow>
    replaceAll matchPercent k (t @ rest) = replaceAll matchPercent k t @ replaceAll matchPercent 0 rest"
proof (induction t arbitrary: k)
  case Nil
  then show ?case by simp
next
  case (Cons c cs)
  show ?case
  proof (cases k)
    case (Suc j)
    with Cons show ?thesis by simp
  next
    case 0
    have m: "matchPercent (c # cs @ rest) = matchPercent (c # cs)"
      using matchPercent_append [OF assms, of "c # cs"] by simp
    show ?thesis
    proof (cases "matchPercent (c # cs)")
      case None
      with 0 m Cons.IH [of 0] show ?thesis by simp
    next
      case (Some a)
      obtain r n where a: "a = (r, n)" by (cases a)
      from matchPercent_length Some a have "0 < n \<and> n \<le> length (c # cs)" by blast
      then have "n - 1 \<le> length cs" by auto
      from Cons.IH [OF this] 0 m Some a show ?thesis by simp
    qed
  qed
qed

lemma matchPercent_op: "isOp c \<Longrightarrow> matchPercent (c # s) = None"
  by (auto simp: matchPercent_def isOp_def isDigit_def)

lemma normalizePercent_run:
  "\<forall>c\<in>set run. isOp c \<Longrightarrow> normalizePercent (run @ s) = run @ normalizePercent s"
  by (induction run) (simp_all add: normalizePercent_def matchPercent_op)

lemma normalizePercent_around:
  assumes "run \<noteq> []" "\<forall>c\<in>set run. isOp c"
  shows "normalizePercent (pre @ run @ post) = normalizePercent pre @ run @ normalizePercent post"
proof -
  have "stopper (run @ post)" using assms by (cases run) (simp_all add: stopper_def)
  from replaceAll_percent_append [OF this, of 0 pre]
  have "normalizePercent (pre @ run @ post) = normalizePercent pre @ normalizePercent (run @ post)"
    by (simp add: normalizePercent_def)
  with normalizePercent_run [OF assms(2)] show ?thesis by simp
qed

lemma replaceAll_percent_Nil_iff: "replaceAll matchPercent 0 s = [] \<longleftrightarrow> s = []"
proof (cases s)
  case (Cons c cs)
  then show ?thesis
    by (cases "matchPercent (c # cs)") (auto simp: matchPercent_def Let_def split: if_splits)
qed simp

lemma matchPercent_last: "matchPercent t = Some (r, n) \<Longrightarrow> r \<noteq> [] \<and> last r = CHR '')'' \<and> hd r = CHR ''(''"
  by (auto simp: matchPercent_def Let_def split: if_splits)

lemma replaceAll_percent_last:
  "s = [] \<or> \<not> isOp (last s) \<Longrightarrow>
    replaceAll matchPercent k s = [] \<or> \<not> isOp (last (replaceAll matchPercent k s))"
proof (induction s arbitrary: k)
  case Nil
  then show ?case by simp
next
  case (Cons c cs)
  then have cs: "cs = [] \<or> \<not> isOp (last cs)" by (auto split: if_splits)
  note IH = Cons.IH [OF cs]
  have paren: "\<not> isOp (CHR '')'')" by (simp add: isOp_def)
  show ?case
  proof (cases k)
    case (Suc j)
    with IH show ?thesis by simp
  next
    case 0
    show ?thesis
    proof (cases "matchPercent (c # cs)")
      case None
      show ?thesis
      proof (cases "cs = []")
        case True
        with None 0 Cons.prems show ?thesis by simp
      next
        case False
        then have "replaceAll matchPercent 0 cs \<noteq> []" by (simp add: replaceAll_percent_Nil_iff)
        with None 0 IH [of 0] show ?thesis by simp
      qed
    next
      case (Some a)
      obtain r n where a: "a = (r, n)" by (cases a)
      from matchPercent_last Some a have r: "r \<noteq> []" "last r = CHR '')''" by blast+
      show ?thesis
      proof (cases "replaceAll matchPercent (n - 1) cs = []")
        case True
        with Some a 0 r paren show ?thesis by simp
      next
        case False
        with Some a 0 r IH [of "n - 1"] show ?thesis by simp
      qed
    qed
  qed
qed

lemma normalizePercent_hd:
  "s = [] \<or> \<not> isOp (hd s) \<Longrightarrow> normalizePercent s = [] \<or> \<not> isOp (hd (normalizePercent s))"
proof (cases s)
  case (Cons c cs)
  assume "s = [] \<or> \<not> isOp (hd s)"
  with Cons have c: "\<not> isOp c" by simp
  have paren: "\<not> isOp (CHR ''('')" by (simp add: isOp_def)
  show ?thesis
  proof (cases "matchPercent (c # cs)")
    case None
    with Cons c show ?thesis by (simp add: normalizePercent_def)
  next
    case (Some a)
    obtain r n where a: "a = (r, n)" by (cases a)
    from matchPercent_last Some a have "r \<noteq> []" "hd r = CHR ''(''" by blast+
    with Some a Cons paren show ?thesis by (simp add: normalizePercent_def)
  qed
qed (simp add: normalizePercent_def)

text \<open>
  C4.  Let the text be \<open>pre @ run @ post\<close>, where \<open>run\<close> is a maximal run of two or
  more operator characters (\<open>pre\<close> does not end with one, \<open>post\<close> does not start with
  one).  The sanitized text is the sanitized part before the run, then the last character
  of the run alone, then the sanitized part after it; the characters next to it are not
  operators, so exactly one operator stands where the run stood.  The same holds when the
  percent rewriting comes first: it rewrites the two parts and leaves the run as it is.
\<close>

theorem sanitizeExpression_collapses_run:
  assumes len: "2 \<le> length run" and ops: "\<forall>c\<in>set run. isOp c"
    and pre: "endsClean pre" and post: "startsClean post"
  shows "sanitizeExpression (pre @ run @ post)
           = sanitizedPrefix pre @ [last run] @ sanitizedSuffix post
         \<and> endsClean (sanitizedPrefix pre) \<and> startsClean (sanitizedSuffix post)
         \<and> sanitizeExpression (normalizePercent (pre @ run @ post))
           = sanitizedPrefix (normalizePercent pre) @ [last run]
             @ sanitizedSuffix (normalizePercent post)
         \<and> endsClean (sanitizedPrefix (normalizePercent pre))
         \<and> startsClean (sanitizedSuffix (normalizePercent post))"
proof -
  have runne: "run \<noteq> []" using len by auto
  have pre': "normalizePercent pre = [] \<or> \<not> isOp (last (normalizePercent pre))"
    unfolding normalizePercent_def using pre
    by (intro replaceAll_percent_last) (simp add: endsClean_def)
  have post': "normalizePercent post = [] \<or> \<not> isOp (hd (normalizePercent post))"
    using post by (intro normalizePercent_hd) (simp add: startsClean_def)
  have eq: "normalizePercent (pre @ run @ post)
      = normalizePercent pre @ run @ normalizePercent post"
    by (rule normalizePercent_around [OF runne ops])
  from sanitize_run [OF len ops, of pre post] pre post
       sanitize_run [OF len ops pre' post']
  show ?thesis
    by (simp add: eq endsClean_def startsClean_def sanitizedPrefix_def sanitizedSuffix_def)
qed

theorem sanitizeExpression_collapses_run_witness:
  "2 \<le> length ''+-*'' \<and> list_all isOp ''+-*'' \<and> endsClean '' 12'' \<and> startsClean ''3.5% ''
   \<and> sanitizeExpression '' 12+-*3.5% '' = ''12*3.5%''
   \<and> sanitizeExpression (normalizePercent '' 12+-*3.5% '') = ''12*(3.5/100)''"
  using sanitizeExpression_collapses_run [of "''+-*''" "'' 12''" "''3.5% ''"]
  by (simp add: isOp_def isSpace_def isWhiteSpace_def isLineTerminator_def stripLeading_def
      collapseOps_def matchOps_def endsClean_def startsClean_def sanitizedPrefix_def
      sanitizedSuffix_def normalizePercent_def matchPercent_def isDigit_def)

text \<open>
  C3.  The sanitizer drops one leading \<open>+\<close>, \<open>*\<close> or \<open>/\<close> and collapses afterwards, so
  a text that starts with two such characters still starts with one: "++1" becomes "+1",
  "*/2" becomes "/2".  The percent rewriting before it does not change that.
\<close>

theorem sanitizeExpression_keeps_leading_operator:
  "sanitizeExpression ''++1'' = ''+1''
   \<and> sanitizeExpression ''*/2'' = ''/2''
   \<and> sanitizeExpression (normalizePercent ''++1'') = ''+1''"
  by (simp add: sanitizeExpression_def collapseOps_def stripLeading_def trim_def isSpace_def
      isWhiteSpace_def isLineTerminator_def matchOps_def isOp_def normalizePercent_def
      matchPercent_def isDigit_def)

section \<open>Keystrokes\<close>

text \<open>
  C8.  A keystroke that arrives while the display shows one of the sentinels "Error",
  "Infinity" or "NaN" acts as it would on the empty display, whatever the keystroke is;
  and a digit typed on "Error" leaves exactly that digit.
\<close>

theorem appendValue_clears_sentinel:
  assumes "isSentinel (display st)"
  shows "appendValue v st = appendValue v (st\<lparr>display := []\<rparr>)
         \<and> (isDigit c \<and> display st = ''Error'' \<longrightarrow> display (appendValue [c] st) = [c])"
proof -
  have first: "appendValue v st = appendValue v (st\<lparr>display := []\<rparr>)"
    using assms by (simp add: appendValue_def isSentinel_def)
  have digit: "display (appendValue [c] st) = [c]" if "isDigit c" "display st = ''Error''"
  proof -
    from that(1) have "\<not> includesStr ''+-*/'' [c]" "[c] \<noteq> ''.''"
      by (auto simp: isDigit_def)
    with that(2) show ?thesis
      by (simp add: appendValue_def isSentinel_def sliceLast_def)
  qed
  from first digit show ?thesis by blast
qed

theorem appendValue_clears_sentinel_witness:
  "isSentinel (display \<lparr>display = ''Error'', history = []\<rparr>)
   \<and> display (appendValue ''7'' \<lparr>display = ''Error'', history = []\<rparr>) = ''7''
   \<and> appendValue ''+'' \<lparr>display = ''Error'', history = []\<rparr> = \<lparr>display = [], history = []\<rparr>"
  using appendValue_clears_sentinel [of "\<lparr>display = ''Error'', history = []\<rparr>" "''+''" "CHR ''7''"]
  by (simp add: isSentinel_def isDigit_def appendValue_def sliceLast_def)

section \<open>The history cap\<close>

lemma addToHistory_length:
  "length (history (addToHistory now e r st)) = min 200 (Suc (length (history st)))"
  if "length (history st) \<le> 200"
  using that by (auto simp: addToHistory_def Let_def)

lemma addToHistory_newest_first:
  "hd (history (addToHistory now e r st)) = \<lparr>expr = e, result = r, time = now\<rparr>"
  by (cases "history st") (simp_all add: addToHistory_def Let_def)

lemma addToHistory_evicts_oldest:
  "length (history st) = 200 \<Longrightarrow>
     history (addToHistory now e r st)
       = \<lparr>expr = e, result = r, time = now\<rparr> # butlast (history st)"
  by (cases "history st") (auto simp: addToHistory_def Let_def)

lemma unshiftSamples_length:
  "length (unshiftSamples now i ss h) = length ss + length h"
  by (induction now i ss h rule: unshiftSamples.induct) simp_all

text \<open>
  C7.  \<open>addToHistory\<close> puts the new entry first and pops the oldest one, the last,
  when the array has grown beyond 200, so that a history of at most 200 entries stays so.
  \<open>addSampleData\<close> unshifts its five entries and never pops: a history of 200 entries
  has 205 afterwards, and \<open>addToHistory\<close>, which pops once, leaves it at 205.
\<close>

theorem addSampleData_exceeds_cap:
  "length (history (addSampleData now \<lparr>display = d, history = replicate 200 x\<rparr>)) = 205
   \<and> length (history (addToHistory t e r
         (addSampleData now \<lparr>display = d, history = replicate 200 x\<rparr>))) = 205"
  by (simp add: addSampleData_def addToHistory_def Let_def unshiftSamples_length samples_def)

section \<open>Representable values\<close>

lemma fl_unfold:
  assumes "q \<noteq> 0"
  defines "e \<equiv> max (ilog2 \<bar>q\<bar> - 52) (- 1074)"
  defines "m \<equiv> roundHalfEven (\<bar>q\<bar> / 2 powi e)"
  shows "fl q = (if overflowThreshold \<le> of_int m * 2 powi e then signedInf (q < 0)
                 else if m = 0 then signedZero (q < 0)
                 else Fin (if q < 0 then - (of_int m * 2 powi e) else of_int m * 2 powi e))"
    and "0 \<le> m" and "m \<le> 2 ^ 53" and "- 1074 \<le> e"
proof -
  show "fl q = (if overflowThreshold \<le> of_int m * 2 powi e then signedInf (q < 0)
                 else if m = 0 then signedZero (q < 0)
                 else Fin (if q < 0 then - (of_int m * 2 powi e) else of_int m * 2 powi e))"
    using assms(1) unfolding fl_def Let_def m_def e_def by simp
  have apos: "0 < \<bar>q\<bar>" using assms(1) by simp
  have "of_int 0 \<le> \<bar>q\<bar> / 2 powi e" by simp
  then show "0 \<le> m" unfolding m_def by (rule roundHalfEven_ge)
  show "- 1074 \<le> e" by (simp add: e_def)
  have hi: "\<bar>q\<bar> < 2 powi (ilog2 \<bar>q\<bar> + 1)" using ilog2_bounds [OF apos] by simp
  have "ilog2 \<bar>q\<bar> + 1 \<le> 53 + e" by (simp add: e_def)
  then have "(2::rat) powi (ilog2 \<bar>q\<bar> + 1) \<le> 2 powi (53 + e)"
    by (intro power_int_increasing) simp_all
  also have "\<dots> = 2 powi 53 * 2 powi e" by (rule power_int_add) simp
  finally have "\<bar>q\<bar> < 2 powi 53 * 2 powi e" using hi by simp
  then have "\<bar>q\<bar> / 2 powi e < 2 powi 53" by (simp add: pos_divide_less_eq)
  then have "\<bar>q\<bar> / 2 powi e \<le> of_int (2 ^ 53)" by simp
  then show "m \<le> 2 ^ 53" unfolding m_def by (rule roundHalfEven_le)
qed

lemma fl_neg: "q \<noteq> 0 \<Longrightarrow> fl (- q) = numNeg (fl q)"
  by (auto simp: fl_def Let_def signedInf_def signedZero_def)

lemma isDouble_signed [simp]: "isDouble (signedZero b)" "isDouble (signedInf b)"
  by (simp_all add: isDouble_def signedZero_def signedInf_def fl_def)

lemma isDouble_fl: "isDouble (fl q)"
proof (cases "q = 0")
  case True
  then show ?thesis by (simp add: isDouble_def fl_def)
next
  case False
  define e where "e = max (ilog2 \<bar>q\<bar> - 52) (- 1074)"
  define m where "m = roundHalfEven (\<bar>q\<bar> / 2 powi e)"
  define v :: rat where "v = of_int m * 2 powi e"
  note u = fl_unfold [OF False, folded e_def m_def, folded v_def]
  show ?thesis
  proof (cases "overflowThreshold \<le> v \<or> m = 0")
    case True
    with u(1) show ?thesis by auto
  next
    case F: False
    with u(2) have mpos: "0 < m" by simp
    from F have small: "of_int m * 2 powi e < overflowThreshold" by (simp add: v_def)
    have pos: "fl v = Fin v" unfolding v_def by (rule fl_exact [OF mpos u(3) u(4) small])
    have vne: "v \<noteq> 0" using mpos by (simp add: v_def)
    then have "fl (- v) = Fin (- v)" using pos by (simp add: fl_neg)
    with pos F u(1) show ?thesis by (simp add: isDouble_def)
  qed
qed

lemma double_nonint_small:
  assumes "fl q = Fin q" "of_int \<lfloor>q\<rfloor> \<noteq> q"
  shows "\<bar>q\<bar> < 2 ^ 53"
proof -
  have q0: "q \<noteq> 0" using assms(2) by auto
  define e where "e = max (ilog2 \<bar>q\<bar> - 52) (- 1074)"
  define m where "m = roundHalfEven (\<bar>q\<bar> / 2 powi e)"
  define v :: rat where "v = of_int m * 2 powi e"
  note u = fl_unfold [OF q0, folded e_def m_def, folded v_def]
  from u(1) assms(1) q0 have qv: "q = (if q < 0 then - v else v)"
    by (auto simp: signedInf_def signedZero_def split: if_splits)
  then have av: "\<bar>q\<bar> = v" using u(2) by (auto simp: v_def split: if_splits)
  have "e < 0"
  proof (rule ccontr)
    assume "\<not> e < 0"
    then have "(2::rat) powi e = of_int (2 ^ nat e)" by (simp add: power_int_def)
    then have "v = of_int (m * 2 ^ nat e)" by (simp add: v_def)
    then obtain K :: int where K: "v = of_int K" by blast
    have "q = of_int (if q < 0 then - K else K)"
    proof (cases "q < 0")
      case True
      with qv have "q = - v" by metis
      with K True show ?thesis by simp
    next
      case False
      with qv have "q = v" by metis
      with K False show ?thesis by simp
    qed
    then have "of_int \<lfloor>q\<rfloor> = q" by (metis floor_of_int)
    with assms(2) show False by simp
  qed
  then have "(2::rat) powi e < 2 powi 0" by (intro power_int_strict_increasing) simp_all
  then have p1: "(2::rat) powi e < 1" by simp
  have mpos: "0 < m" using av q0 u(2) by (cases "m = 0") (auto simp: v_def)
  have "v < of_int m * 1" unfolding v_def using p1 mpos by (intro mult_strict_left_mono) simp_all
  also have "(of_int m :: rat) \<le> 2 ^ 53" using u(3) by (simp only: of_int_le_numeral_power_cancel_iff)
  finally show ?thesis using av by simp
qed


lemma fl_zero [simp]: "fl 0 = Fin 0"
  by (simp add: fl_def)

lemma isDouble_simps [simp]:
  "isDouble NaN" "isDouble PosInf" "isDouble NegInf" "isDouble NegZero"
  by (simp_all add: isDouble_def)

lemma isDouble_numNeg: "isDouble x \<Longrightarrow> isDouble (numNeg x)"
  by (cases x) (auto simp: isDouble_def fl_neg)

lemma isDouble_numAdd: "isDouble x \<Longrightarrow> isDouble y \<Longrightarrow> isDouble (numAdd x y)"
  by (simp add: numAdd_def isDouble_fl)

lemma isDouble_numSub: "isDouble x \<Longrightarrow> isDouble y \<Longrightarrow> isDouble (numSub x y)"
  by (simp add: numSub_def isDouble_numAdd isDouble_numNeg)

lemma isDouble_numMul: "isDouble (numMul x y)"
  by (simp add: numMul_def Let_def isDouble_fl)

lemma isDouble_numDiv: "isDouble (numDiv x y)"
  by (simp add: numDiv_def Let_def isDouble_fl)

lemma isDouble_numRem: "isDouble x \<Longrightarrow> isDouble (numRem x y)"
  by (simp add: numRem_def Let_def isDouble_fl)

lemma isDouble_binaryOp:
  "isDouble (toNumber a) \<Longrightarrow> isDouble (toNumber b) \<Longrightarrow> isDouble (toNumber (binaryOp c a b))"
  by (cases a; cases b)
     (simp_all add: binaryOp_def isDouble_numAdd isDouble_numSub isDouble_numMul isDouble_numDiv
        isDouble_numRem)

lemma eval_double: "eval a = Some v \<Longrightarrow> isDouble (toNumber v)"
proof (induction a arbitrary: v)
  case (Lit mv)
  then show ?case by (auto simp: isDouble_fl)
next
  case (Unary c a)
  then show ?case by (auto simp: isDouble_numNeg split: option.splits)
next
  case (Binary c a b)
  then show ?case by (auto simp: isDouble_binaryOp split: option.splits)
qed auto

lemma safeEval_double: "safeEval e = Inr (Num x) \<Longrightarrow> isDouble x"
  using eval_double [where v = "Num x"]
  by (auto simp: safeEval_def runFunction_def Let_def split: if_splits option.splits list.splits)

section \<open>Rounding through text\<close>

lemma digitValue_digitChar: "d < 10 \<Longrightarrow> digitValue (digitChar d) = d"
proof -
  assume "d < 10"
  then have "d \<in> {0, 1, 2, 3, 4, 5, 6, 7, 8, 9}" by auto
  then show ?thesis by (auto simp: digitValue_def digitChar_def)
qed

lemma isDigit_digitChar: "d < 10 \<Longrightarrow> isDigit (digitChar d)"
proof -
  assume "d < 10"
  then have "d \<in> {0, 1, 2, 3, 4, 5, 6, 7, 8, 9}" by auto
  then show ?thesis by (auto simp: isDigit_def digitChar_def)
qed

lemma digitsOf_nonempty: "digitsOf n \<noteq> []"
  by (subst digitsOf.simps) simp

lemma digitsOf_digits: "list_all isDigit (digitsOf n)"
proof (induction n rule: digitsOf.induct)
  case (1 n)
  show ?case
  proof (cases "n < 10")
    case True
    then show ?thesis by (subst digitsOf.simps) (simp add: isDigit_digitChar)
  next
    case False
    with 1 show ?thesis by (subst digitsOf.simps) (simp add: isDigit_digitChar)
  qed
qed

lemma valueOfDigits_snoc: "valueOfDigits (ds @ [c]) = 10 * valueOfDigits ds + digitValue c"
  by (simp add: valueOfDigits_def)

lemma valueOfDigits_digitsOf: "valueOfDigits (digitsOf n) = n"
proof (induction n rule: digitsOf.induct)
  case (1 n)
  show ?case
  proof (cases "n < 10")
    case True
    then show ?thesis
      by (subst digitsOf.simps) (simp add: valueOfDigits_def digitValue_digitChar)
  next
    case False
    with 1 have "valueOfDigits (digitsOf (n div 10)) = n div 10" by simp
    with False show ?thesis
      by (subst digitsOf.simps) (simp add: valueOfDigits_snoc digitValue_digitChar)
  qed
qed

lemma valueOfDigits_zeros: "valueOfDigits (replicate k (CHR ''0'') @ ds) = valueOfDigits ds"
proof -
  have "foldl (\<lambda>acc c. 10 * acc + digitValue c) 0 (replicate k (CHR ''0'')) = 0"
    by (induction k) (simp_all add: digitValue_def replicate_app_Cons_same)
  then show ?thesis by (simp add: valueOfDigits_def)
qed


lemma digit_not_special:
  "isDigit c \<Longrightarrow> \<not> isSpace c \<and> c \<noteq> CHR ''-'' \<and> c \<noteq> CHR ''+'' \<and> c \<noteq> CHR ''I'' \<and> c \<noteq> CHR ''.''"
  by (auto simp: isDigit_def isSpace_def isWhiteSpace_def isLineTerminator_def)

lemma span_digits:
  assumes "list_all isDigit ds" "r = [] \<or> \<not> isDigit (hd r)"
  shows "takeWhile isDigit (ds @ r) = ds" "dropWhile isDigit (ds @ r) = r"
proof -
  have all: "\<And>x. x \<in> set ds \<Longrightarrow> isDigit x" using assms(1) by (simp add: list_all_iff)
  have r: "takeWhile isDigit r = []" "dropWhile isDigit r = r"
    using assms(2) by (cases r; simp)+
  show "takeWhile isDigit (ds @ r) = ds" using all r by (simp add: takeWhile_append2)
  show "dropWhile isDigit (ds @ r) = r" using all r by (simp add: dropWhile_append2)
qed

lemma parseFloat_fixed:
  assumes ip: "list_all isDigit ip" "ip \<noteq> []" and fp: "list_all isDigit fp"
  shows "parseFloat ((if neg then ''-'' else []) @ ip @ ''.'' @ fp)
         = (if decimalValue ip fp = 0 then signedZero neg
            else fl (if neg then - decimalValue ip fp else decimalValue ip fp))"
proof -
  obtain c cs where c: "ip = c # cs" using ip(2) by (cases ip) auto
  with ip(1) have "isDigit c" by simp
  note d = digit_not_special [OF this]
  define body where "body = ip @ ''.'' @ fp"
  have bodyc: "body = c # cs @ ''.'' @ fp" by (simp add: body_def c)
  have sp: "\<not> isSpace (CHR ''-'')" "dropWhile isSpace body = body"
    using d by (simp_all add: bodyc isSpace_def isWhiteSpace_def isLineTerminator_def)
  have sw: "startsWith body ''-'' = False" "startsWith body ''+'' = False"
    "startsWith body ''Infinity'' = False"
    using d by (simp_all add: bodyc)
  have s1: "takeWhile isDigit body = ip" "dropWhile isDigit body = ''.'' @ fp"
    unfolding body_def using span_digits [OF ip(1), of "''.'' @ fp"] by (simp_all add: isDigit_def)
  have s2: "takeWhile isDigit fp = fp" "dropWhile isDigit fp = []"
    using span_digits [OF fp, of "[]"] by simp_all
  have ex: "exponentPart [] = 0" by (simp add: exponentPart_def)
  show ?thesis
  proof (cases neg)
    case True
    have "parseFloat (''-'' @ body)
        = (if decimalValue ip fp = 0 then signedZero True else fl (- decimalValue ip fp))"
      by (simp add: parseFloat_def Let_def sp sw s1 s2 ex ip(2))
    with True show ?thesis by (simp add: body_def)
  next
    case False
    have "parseFloat body
        = (if decimalValue ip fp = 0 then signedZero False else fl (decimalValue ip fp))"
      by (simp add: parseFloat_def Let_def sp sw s1 s2 ex ip(2))
    with False show ?thesis by (simp add: body_def)
  qed
qed

lemma toFixed10_parts:
  assumes "\<bar>q\<bar> < 10 ^ 21"
  defines "n \<equiv> nat \<lfloor>\<bar>q\<bar> * 10 ^ 10 + 1 / 2\<rfloor>"
  shows "\<exists>ip fp. toFixed10 (Fin q) = (if q < 0 then ''-'' else []) @ ip @ ''.'' @ fp
           \<and> list_all isDigit ip \<and> ip \<noteq> [] \<and> list_all isDigit fp
           \<and> decimalValue ip fp = of_nat n / 10 ^ 10"
proof -
  define m where "m = digitsOf n"
  define m' where "m' = replicate (11 - length m) (CHR ''0'') @ m"
  define ip where "ip = take (length m' - 10) m'"
  define fp where "fp = drop (length m' - 10) m'"
  have len: "11 \<le> length m'" by (simp add: m'_def)
  have z: "isDigit (CHR ''0'')" by (simp add: isDigit_def)
  have dm: "list_all isDigit m'"
    using digitsOf_digits [of n] z by (auto simp: m'_def m_def list_all_iff)
  have ipfp: "ip @ fp = m'" by (simp add: ip_def fp_def)
  have "list_all isDigit (ip @ fp)" using dm ipfp by simp
  then have dig: "list_all isDigit ip" "list_all isDigit fp" by simp_all
  have ipne: "ip \<noteq> []" using len by (auto simp: ip_def)
  have lfp: "length fp = 10" using len by (simp add: fp_def)
  have "valueOfDigits m' = n"
    by (simp add: m'_def m_def valueOfDigits_zeros valueOfDigits_digitsOf)
  then have dv: "decimalValue ip fp = of_nat n / 10 ^ 10"
    by (simp add: decimalValue_def ipfp lfp)
  have big: "(10 ^ 21 \<le> \<bar>q\<bar>) = False" using assms(1) by simp
  have "toFixed10 (Fin q) = (if q < 0 then ''-'' else []) @ ip @ ''.'' @ fp"
    unfolding toFixed10_def Let_def ip_def fp_def m'_def m_def n_def
    by (simp only: isFinite.simps realOf.simps big not_True_eq_False if_False)
  with dig ipne dv show ?thesis by blast
qed

lemma parseFloat_toFixed10:
  assumes "\<bar>q\<bar> < 10 ^ 21" "q \<noteq> 0"
  shows "parseFloat (toFixed10 (Fin q)) = roundedNumber q"
proof -
  from toFixed10_parts [OF assms(1)] obtain ip fp where
    tf: "toFixed10 (Fin q) = (if q < 0 then ''-'' else []) @ ip @ ''.'' @ fp"
    and dig: "list_all isDigit ip" "ip \<noteq> []" "list_all isDigit fp"
    and dv: "decimalValue ip fp = of_nat (nat \<lfloor>\<bar>q\<bar> * 10 ^ 10 + 1 / 2\<rfloor>) / 10 ^ 10"
    by blast
  define d :: rat where "d = of_int \<lfloor>\<bar>q\<bar> * 10 ^ 10 + 1 / 2\<rfloor> / 10 ^ 10"
  have "0 \<le> \<lfloor>\<bar>q\<bar> * 10 ^ 10 + 1 / 2\<rfloor>" by simp
  then have "(of_nat (nat \<lfloor>\<bar>q\<bar> * 10 ^ 10 + 1 / 2\<rfloor>) :: rat) = of_int \<lfloor>\<bar>q\<bar> * 10 ^ 10 + 1 / 2\<rfloor>"
    by (metis of_int_of_nat_eq int_nat_eq)
  with dv have dv': "decimalValue ip fp = d" by (simp add: d_def)
  have n: "nearestTenDigits q = (if q < 0 then - d else d)"
    using assms(2) by (simp add: nearestTenDigits_def d_def sgn_if)
  have "parseFloat (toFixed10 (Fin q)) = (if d = 0 then signedZero (q < 0) else fl (if q < 0 then - d else d))"
    using parseFloat_fixed [OF dig, of "q < 0"] tf dv' by simp
  also have "\<dots> = roundedNumber q" by (simp add: roundedNumber_def n)
  finally show ?thesis .
qed

lemma nearestTenDigits_near:
  "\<bar>nearestTenDigits q - q\<bar> \<le> 1 / (2 * 10 ^ 10)"
  "\<exists>n::int. nearestTenDigits q * 10 ^ 10 = of_int n"
proof -
  define y where "y = \<bar>q\<bar> * 10 ^ 10 + 1 / 2"
  define t where "t = of_int \<lfloor>y\<rfloor> - \<bar>q\<bar> * 10 ^ 10"
  have "t \<le> 1 / 2" using floor_correct [of y] unfolding y_def t_def by linarith
  then have hi: "t / 10 ^ 10 \<le> (1 / 2) / 10 ^ 10" by (intro divide_right_mono) simp_all
  have "- (1 / 2) \<le> t" using floor_correct [of y] unfolding y_def t_def by linarith
  then have lo: "(- (1 / 2)) / 10 ^ 10 \<le> t / 10 ^ 10" by (intro divide_right_mono) simp_all
  have eq: "of_int \<lfloor>y\<rfloor> / 10 ^ 10 - \<bar>q\<bar> = t / 10 ^ 10"
    by (simp add: t_def diff_divide_distrib)
  have mag: "\<bar>of_int \<lfloor>y\<rfloor> / 10 ^ 10 - \<bar>q\<bar>\<bar> \<le> 1 / (2 * 10 ^ 10)"
    unfolding eq abs_le_iff using lo hi by simp
  have "nearestTenDigits q - q = sgn q * (of_int \<lfloor>y\<rfloor> / 10 ^ 10 - \<bar>q\<bar>)"
    by (simp add: nearestTenDigits_def y_def algebra_simps sgn_if)
  then have "\<bar>nearestTenDigits q - q\<bar> = \<bar>sgn q\<bar> * \<bar>of_int \<lfloor>y\<rfloor> / 10 ^ 10 - \<bar>q\<bar>\<bar>"
    by (simp add: abs_mult)
  also have "\<dots> \<le> 1 * \<bar>of_int \<lfloor>y\<rfloor> / 10 ^ 10 - \<bar>q\<bar>\<bar>"
    by (intro mult_right_mono) (simp_all add: sgn_if)
  finally show "\<bar>nearestTenDigits q - q\<bar> \<le> 1 / (2 * 10 ^ 10)" using mag by simp
  have "nearestTenDigits q * 10 ^ 10 = of_int (if q < 0 then - \<lfloor>y\<rfloor> else if q = 0 then 0 else \<lfloor>y\<rfloor>)"
    by (simp add: nearestTenDigits_def y_def sgn_if)
  then show "\<exists>n::int. nearestTenDigits q * 10 ^ 10 = of_int n" by blast
qed

lemma roundResult_surfaced:
  assumes "isDouble x"
  shows "roundResult (Num x) = Num (surfaced x)"
proof (cases x)
  case (Fin q)
  show ?thesis
  proof (cases "of_int \<lfloor>q\<rfloor> = q")
    case True
    with Fin show ?thesis by (simp add: roundResult_def surfaced_def)
  next
    case False
    from assms Fin have "fl q = Fin q" by (simp add: isDouble_def)
    from double_nonint_small [OF this False] have "\<bar>q\<bar> < 10 ^ 21" by simp
    moreover have "q \<noteq> 0" using False by auto
    ultimately have "parseFloat (toFixed10 (Fin q)) = roundedNumber q"
      by (rule parseFloat_toFixed10)
    with Fin False show ?thesis by (simp add: roundResult_def surfaced_def)
  qed
next
  case NegZero
  then show ?thesis by (simp add: roundResult_def surfaced_def)
next
  case PosInf
  then show ?thesis
    by (simp add: roundResult_def surfaced_def toFixed10_def parseFloat_def signedInf_def
        isSpace_def isWhiteSpace_def isLineTerminator_def)
next
  case NegInf
  then show ?thesis
    by (simp add: roundResult_def surfaced_def toFixed10_def parseFloat_def signedInf_def
        isSpace_def isWhiteSpace_def isLineTerminator_def)
next
  case NaN
  then show ?thesis
    by (simp add: roundResult_def surfaced_def toFixed10_def parseFloat_def Let_def isDigit_def
        isSpace_def isWhiteSpace_def isLineTerminator_def)
qed

text \<open>
  C6.  When the evaluation returns a Number, \<open>calculateResult\<close> puts \<open>String\<close> of the
  surfaced Number into the new first entry of the history, and the same text into the
  display once \<open>saveHistory\<close> and \<open>renderHistory\<close> have returned; when one of them
  throws, the entry stays and the display shows "Error", so no unrounded result is shown
  on either path.  An integer is surfaced as it is.  A finite result \<open>q\<close> that is not an
  integer is surfaced as the Number for \<open>nearestTenDigits q\<close>, a decimal with ten
  fractional digits within half a unit of the tenth digit of \<open>q\<close>.  (NaN and the
  infinities, which \<open>Number.isInteger\<close> rejects, come back unchanged from \<open>toFixed\<close> and
  \<open>parseFloat\<close>.)
\<close>

theorem calculateResult_rounds:
  assumes "trim (display st) \<noteq> []" and "safeEval (trim (display st)) = Inr (Num x)"
  shows "calculateResult stored now st
           = (addToHistory now (trim (display st)) (numToString (surfaced x)) st)
               \<lparr>display := (if stored then numToString (surfaced x) else ''Error'')\<rparr>
         \<and> (isInteger x \<longrightarrow> surfaced x = x)
         \<and> (\<forall>q. x = Fin q \<and> \<not> isInteger x \<longrightarrow>
               surfaced x = roundedNumber q
               \<and> \<bar>nearestTenDigits q - q\<bar> \<le> 1 / (2 * 10 ^ 10)
               \<and> (\<exists>n::int. nearestTenDigits q * 10 ^ 10 = of_int n))"
proof -
  have "isDouble x" using assms(2) by (rule safeEval_double)
  then have "roundResult (Num x) = Num (surfaced x)" by (rule roundResult_surfaced)
  then have "calculateResult stored now st
           = (addToHistory now (trim (display st)) (numToString (surfaced x)) st)
               \<lparr>display := (if stored then numToString (surfaced x) else ''Error'')\<rparr>"
    using assms by (simp add: calculateResult_def Let_def)
  moreover have "isInteger x \<longrightarrow> surfaced x = x"
    by (cases x) (simp_all add: surfaced_def)
  moreover have "surfaced (Fin q) = roundedNumber q" if "\<not> isInteger (Fin q)" for q
    using that by (simp add: surfaced_def)
  ultimately show ?thesis using nearestTenDigits_near by blast
qed


lemma fl_one: "fl 1 = Fin 1"
  using fl_exact [of 1 0] by (simp add: overflowThreshold_def)

lemma fl_three_fifths: "fl (3 / 5) = Fin (5404319552844595 / 9007199254740992)"
  using fl_normal [of "- 1" "3 / 5"] by (simp add: roundHalfEven_def Let_def floor_rat_numeral_div)

lemma shortest_numeral:
  "shortest q n0 (numeral w) k =
     (case candidates q k n0 @ candidates q k (n0 + 1) of
        [] \<Rightarrow> shortest q n0 (pred_numeral w) (Suc k)
      | c # cs \<Rightarrow> (k, foldl (closer q k) c cs))"
  by (simp add: numeral_eq_Suc)

lemma digitsOf_numeral:
  "digitsOf (numeral w) =
     (if (numeral w :: nat) < 10 then [digitChar (numeral w)]
      else digitsOf (numeral w div 10) @ [digitChar (numeral w mod 10)])"
  by (subst digitsOf.simps) simp

lemma digitsOf_0_1: "digitsOf 0 = ''0''" "digitsOf (Suc 0) = ''1''"
  by (simp_all add: digitsOf.simps digitChar_def)

lemma floor_rat_one_div: "\<lfloor>(1::rat) / numeral b\<rfloor> = 1 div numeral b"
  by (metis floor_divide_of_int_eq of_int_1 of_int_numeral)

lemma ceiling_rat_numeral_div:
  "\<lceil>(numeral a :: rat) / numeral b\<rceil> = - ((- numeral a) div numeral b)"
proof -
  have "\<lceil>(numeral a :: rat) / numeral b\<rceil> = - \<lfloor>of_int (- numeral a) / (of_int (numeral b) :: rat)\<rfloor>"
    by (simp add: ceiling_def)
  also have "\<dots> = - ((- numeral a) div numeral b)" by (simp only: floor_divide_of_int_eq)
  finally show ?thesis .
qed

lemmas toString_simps = floor_rat_one_div ceiling_rat_numeral_div posToString_def decExp_def shortest_numeral candidates_def
  digitsOf_numeral digitsOf_0_1 formatDigits_def digitChar_def Let_def floor_rat_numeral_div
  closer_def

lemma posToString_8: "posToString 8 = ''8''"
  by (simp add: toString_simps fl_one)

lemma posToString_half: "posToString (1 / 2) = ''0.5''"
  by (simp add: toString_simps fl_one fl_half fl_three_fifths)


lemma fl_fifth: "fl (1 / 5) = Fin (3602879701896397 / 18014398509481984)"
  using fl_normal [of "- 3" "1 / 5"] by (simp add: roundHalfEven_def Let_def floor_rat_numeral_div)

lemma fl_three_tenths: "fl (3 / 10) = Fin (5404319552844595 / 18014398509481984)"
  using fl_normal [of "- 2" "3 / 10"] by (simp add: roundHalfEven_def Let_def floor_rat_numeral_div)

lemma fl_tenth_plus_fifth:
  "fl (10808639105689191 / 36028797018963968) = Fin (1351079888211149 / 4503599627370496)"
  using fl_normal [of "- 2" "10808639105689191 / 36028797018963968"]
  by (simp add: roundHalfEven_def Let_def floor_rat_numeral_div)

lemma fl_1999_tenths: "fl (1999 / 10) = Fin (7033355980557517 / 35184372088832)"
  using fl_normal [of 7 "1999 / 10"] by (simp add: roundHalfEven_def Let_def floor_rat_numeral_div)

lemma safeEval_tenth_plus_fifth:
  "safeEval ''0.1+0.2'' = Inr (Num (Fin (1351079888211149 / 4503599627370496)))"
  by (simp add: char_simps normalize_simps run_simps fl_tenth fl_fifth fl_tenth_plus_fifth)

lemma posToString_three_tenths:
  "posToString (5404319552844595 / 18014398509481984) = ''0.3''"
  by (simp add: toString_simps fl_one fl_fifth fl_three_tenths)

lemma posToString_1999_tenths:
  "posToString (7033355980557517 / 35184372088832) = ''199.9''"
  by (simp add: toString_simps fl_1999_tenths)

lemmas surfaced_simps = surfaced_def roundedNumber_def nearestTenDigits_def floor_rat_numeral_div
  floor_rat_one_div

theorem calculateResult_rounds_witness:
  "calculateResult True ''t'' \<lparr>display = ''0.1+0.2'', history = []\<rparr>
     = \<lparr>display = ''0.3'', history = [\<lparr>expr = ''0.1+0.2'', result = ''0.3'', time = ''t''\<rparr>]\<rparr>
   \<and> calculateResult True ''t'' \<lparr>display = ''5+3'', history = []\<rparr>
     = \<lparr>display = ''8'', history = [\<lparr>expr = ''5+3'', result = ''8'', time = ''t''\<rparr>]\<rparr>
   \<and> calculateResult False ''t'' \<lparr>display = ''0.1+0.2'', history = []\<rparr>
     = \<lparr>display = ''Error'', history = [\<lparr>expr = ''0.1+0.2'', result = ''0.3'', time = ''t''\<rparr>]\<rparr>"
  using calculateResult_rounds [of "\<lparr>display = ''0.1+0.2'', history = []\<rparr>"
          "Fin (1351079888211149 / 4503599627370496)" True "''t''"]
        calculateResult_rounds [of "\<lparr>display = ''5+3'', history = []\<rparr>" "Fin 8" True "''t''"]
        calculateResult_rounds [of "\<lparr>display = ''0.1+0.2'', history = []\<rparr>"
          "Fin (1351079888211149 / 4503599627370496)" False "''t''"]
  by (simp add: trim_def char_simps safeEval_tenth_plus_fifth safeEval_5_plus_3 surfaced_simps
      fl_three_tenths posToString_three_tenths posToString_8 addToHistory_def)

lemma calculateResult_200_minus_10_percent:
  "display (calculateResult True now \<lparr>display = ''200-10%'', history = h\<rparr>) = ''199.9''"
proof -
  have e: "safeEval ''200-10%'' = Inr (Num (Fin (7033355980557517 / 35184372088832)))"
    by (simp add: char_simps normalize_simps run_simps fl_tenth fl_sample)
  have "roundResult (Num (Fin (7033355980557517 / 35184372088832)))
      = Num (surfaced (Fin (7033355980557517 / 35184372088832)))"
    using e by (intro roundResult_surfaced safeEval_double)
  also have "surfaced (Fin (7033355980557517 / 35184372088832)) = Fin (7033355980557517 / 35184372088832)"
    by (simp add: surfaced_simps fl_1999_tenths)
  finally show ?thesis
    by (simp add: calculateResult_def trim_def char_simps e posToString_1999_tenths addToHistory_def Let_def)
qed


text \<open>
  C2.  "200-10%" is rewritten to "200-(10/100)" and evaluates to the Number nearest to
  199.9 (10/100 is the Number nearest to 0.1, and the difference is rounded again);
  \<open>calculateResult\<close>, when the history is stored, shows it as "199.9".  The sample
  entry of \<open>addSampleData\<close> for this text shows 180.
\<close>

theorem safeEval_200_minus_10_percent:
  "safeEval ''200-10%'' = Inr (Num (Fin (7033355980557517 / 35184372088832)))
   \<and> safeEval ''200-10%'' \<noteq> Inr (Num (Fin 180))
   \<and> display (calculateResult True now \<lparr>display = ''200-10%'', history = h\<rparr>) = ''199.9''
   \<and> (''200-10%'', ''180'') \<in> set samples"
  by (simp add: char_simps normalize_simps run_simps fl_tenth fl_sample
      calculateResult_200_minus_10_percent samples_def)

section \<open>Coverage of the model of the host\<close>

text \<open>
  \<open>safeEval\<close> never hands the host a text outside the modelled part of the language.
\<close>

lemma replaceAll_all:
  assumes "\<And>t r n. list_all P t \<Longrightarrow> m t = Some (r, n) \<Longrightarrow> list_all P r"
  shows "list_all P s \<Longrightarrow> list_all P (replaceAll m k s)"
proof (induction s arbitrary: k)
  case Nil
  then show ?case by simp
next
  case (Cons c cs)
  show ?case
  proof (cases k)
    case 0
    show ?thesis
    proof (cases "m (c # cs)")
      case None
      with 0 Cons show ?thesis by simp
    next
      case (Some a)
      obtain r n where a: "a = (r, n)" by (cases a)
      from assms [OF Cons.prems] Some a have "list_all P r" by simp
      with 0 Some a Cons show ?thesis by simp
    qed
  next
    case (Suc j)
    with Cons show ?thesis by simp
  qed
qed

lemma allowed_digit: "isDigit c \<Longrightarrow> allowedChar c"
  by (simp add: allowedChar_def)

lemma allowed_takeWhile_digits: "list_all allowedChar (takeWhile isDigit s)"
  by (induction s) (simp_all add: allowed_digit)

lemma matchPercent_allowed:
  "matchPercent t = Some (r, n) \<Longrightarrow> list_all allowedChar r"
proof -
  have c: "allowedChar (CHR ''('')" "allowedChar (CHR ''/'')" "allowedChar (CHR ''1'')"
    "allowedChar (CHR ''0'')" "allowedChar (CHR '')'')" "allowedChar (CHR ''.'')"
    by (simp_all add: allowedChar_def isDigit_def)
  assume "matchPercent t = Some (r, n)"
  then show ?thesis
    by (auto simp: matchPercent_def Let_def c allowed_takeWhile_digits split: if_splits)
qed

lemma matchOps_allowed:
  assumes "list_all P t" "matchOps t = Some (r, n)"
  shows "list_all P r"
proof -
  from assms(2) have r: "r = [last (takeWhile isOp t)]" and ne: "takeWhile isOp t \<noteq> []"
    by (auto simp: matchOps_def Let_def split: if_splits)
  from ne have "last (takeWhile isOp t) \<in> set (takeWhile isOp t)" by simp
  then have "last (takeWhile isOp t) \<in> set t" by (rule set_takeWhileD [THEN conjunct1])
  with assms(1) r show ?thesis by (simp add: list_all_iff)
qed

lemma trim_all: "list_all P s \<Longrightarrow> list_all P (trim s)"
  by (auto simp: trim_def list_all_iff dest!: set_dropWhileD)

lemma stripLeading_all: "list_all P s \<Longrightarrow> list_all P (stripLeading s)"
  by (cases s) (simp_all add: stripLeading_def)

lemma sanitized_allowed:
  assumes "list_all allowedChar raw"
  shows "list_all allowedChar (sanitizeExpression (normalizePercent raw))"
proof -
  have "list_all allowedChar (normalizePercent raw)"
    unfolding normalizePercent_def using matchPercent_allowed assms by (intro replaceAll_all)
  then have "list_all allowedChar (stripLeading (trim (normalizePercent raw)))"
    by (intro stripLeading_all trim_all)
  then show ?thesis
    unfolding sanitizeExpression_def collapseOps_def using matchOps_allowed
    by (intro replaceAll_all)
qed

lemma noAdjacentOps_Cons: "\<not> isOp c \<Longrightarrow> noAdjacentOps (c # s) = noAdjacentOps s"
  by (cases s) simp_all

lemma noAdjacentOps_snoc: "\<not> isOp c \<Longrightarrow> noAdjacentOps s \<Longrightarrow> noAdjacentOps (s @ [c])"
  by (induction s rule: noAdjacentOps.induct) auto

lemma noAdjacentOps_collapseOps: "noAdjacentOps (collapseOps s)"
proof (induction "length s" arbitrary: s rule: less_induct)
  case less
  show ?case
  proof (cases s)
    case Nil
    then show ?thesis by (simp add: collapseOps_Nil)
  next
    case (Cons c cs)
    show ?thesis
    proof (cases "isOp c")
      case False
      with less.hyps [of cs] Cons show ?thesis
        by (simp add: collapseOps_nonop noAdjacentOps_Cons)
    next
      case True
      define run where "run = takeWhile isOp s"
      define mid where "mid = dropWhile isOp s"
      have sp: "s = run @ mid" by (simp add: run_def mid_def)
      have runne: "run \<noteq> []" using True Cons by (simp add: run_def)
      have runops: "\<forall>c\<in>set run. isOp c" by (auto simp: run_def dest: set_takeWhileD)
      have midhd: "mid = [] \<or> \<not> isOp (hd mid)"
        using hd_dropWhile [of isOp s] by (auto simp: mid_def)
      have eq: "collapseOps s = last run # collapseOps mid"
        using collapseOps_run [OF runne runops midhd] sp by simp
      show ?thesis
      proof (cases mid)
        case Nil
        with eq show ?thesis by (simp add: collapseOps_Nil)
      next
        case (Cons d ds)
        with midhd have d: "\<not> isOp d" by simp
        have "length mid < length s" using sp runne by simp
        from less.hyps [OF this] have "noAdjacentOps (collapseOps mid)" .
        with eq Cons d show ?thesis by (simp add: collapseOps_nonop)
      qed
    qed
  qed
qed

lemma runFunction_cases:
  "list_all allowedChar t \<Longrightarrow> noAdjacentOps t \<Longrightarrow> runFunction t \<noteq> Inl NotModelled"
  by (simp add: runFunction_def split: option.splits list.splits)

lemma safeEval_modelled: "safeEval raw \<noteq> Inl NotModelled"
proof (cases "validChars raw")
  case False
  then show ?thesis by (simp add: safeEval_def)
next
  case True
  define e where "e = sanitizeExpression (normalizePercent raw)"
  have a: "list_all allowedChar e"
    unfolding e_def using True by (intro sanitized_allowed) (simp add: validChars_def)
  have p: "\<not> isOp (CHR ''('')" "\<not> isOp (CHR '')'')" "allowedChar (CHR ''('')" "allowedChar (CHR '')'')"
    by (simp_all add: isOp_def allowedChar_def)
  have "noAdjacentOps e" unfolding e_def sanitizeExpression_def by (rule noAdjacentOps_collapseOps)
  then have "noAdjacentOps (e @ '')'')" using p by (intro noAdjacentOps_snoc)
  then have n: "noAdjacentOps (''('' @ e @ '')'')" using p by (simp add: noAdjacentOps_Cons)
  have "list_all allowedChar (''('' @ e @ '')'')" using a p by simp
  from runFunction_cases [OF this n] True show ?thesis
    by (simp add: safeEval_def e_def)
qed

section \<open>The sentinels and delete\<close>

lemma safeEval_division_by_zero: "safeEval ''1/0'' = Inr (Num PosInf)"
  by (simp add: char_simps normalize_simps run_simps fl_one signedInf_def)

lemma calculateResult_division_by_zero:
  "display (calculateResult True now \<lparr>display = ''1/0'', history = h\<rparr>) = ''Infinity''"
  by (simp add: calculateResult_def trim_def char_simps safeEval_division_by_zero roundResult_def
      toFixed10_def parseFloat_def signedInf_def addToHistory_def Let_def)

text \<open>
  C9.  \<open>deleteLast\<close> compares the display with "Error" only.  On "Infinity" (which
  \<open>calculateResult\<close> shows for "1/0" when the history is stored) and on "NaN", which
  \<open>appendValue\<close> treats as sentinels, it trims one character and leaves "Infinit" and
  "Na".
\<close>

theorem deleteLast_keeps_sentinel_prefix:
  "display (deleteLast \<lparr>display = ''Infinity'', history = h\<rparr>) = ''Infinit''
   \<and> display (deleteLast \<lparr>display = ''NaN'', history = h\<rparr>) = ''Na''
   \<and> display (deleteLast \<lparr>display = ''Error'', history = h\<rparr>) = []
   \<and> display (deleteLast (calculateResult True now \<lparr>display = ''1/0'', history = h\<rparr>)) = ''Infinit''"
  using calculateResult_division_by_zero [of now h] by (simp add: deleteLast_def)

end
